theory Spec2Isabelle
  imports Main "HOL-Library.Code_Target_Nat"
begin

text \<open>
  A model of \<^verbatim>\<open>similarity_search/src/method/small_world_rand.cc\<close>, the randomized small-world
  graph index of the Non-Metric Space Library: the construction of the index, the
  insertion of a node with its index-time traversal, and the nearest-neighbour and range
  queries. The first part holds the definitions, translated from the source function by
  function; the sections after it prove properties of them: the density of the assignment
  indices, the errors of \<^verbatim>\<open>add\<close> and \<^verbatim>\<open>Search\<close>, what a query on a single-node index reports,
  a traversal that does not terminate, the treatment of nodes beyond the snapshot, the
  order of linking and publication, and the number of friends of an inserted node together
  with the termination of the traversal on the graphs of a sequential build.
\<close>

section \<open>Data model of the small-world graph index\<close>

text \<open>
  A node pointer (\<^verbatim>\<open>MSWNode*\<close>) is an address. The node objects live in a heap that maps
  every address to a node object; \<^verbatim>\<open>new MSWNode(obj)\<close> takes the next free address. The
  code only dereferences pointers that came from \<^verbatim>\<open>new\<close> and nodes are never freed while
  the index is used, so reading a node through a non-null pointer always succeeds. The
  one pointer that can be \<^verbatim>\<open>NULL\<close> is the result of \<^verbatim>\<open>getRandomEntryPoint\<close>, modelled by
  \<open>option\<close>.

  Members keep their names without the trailing underscore (\<^verbatim>\<open>NN_\<close> is \<open>NN\<close>, \<^verbatim>\<open>ElList_\<close> is
  \<open>ElList\<close>). Values of type \<^verbatim>\<open>size_t\<close> are natural numbers: the sizes of the vectors stay
  below \<^verbatim>\<open>max_size()\<close>, far from wrapping around. The distance type \<^verbatim>\<open>dist_t\<close> (instantiated
  with \<^verbatim>\<open>float\<close>, \<^verbatim>\<open>double\<close> and \<^verbatim>\<open>int\<close>) is any linearly ordered type. The model is
  sequential: the mutexes are left out, and a state in which other threads have linked
  nodes that they have not yet appended is an ordinary state of the model.
\<close>

type_synonym ptr = nat

text \<open>\<^verbatim>\<open>numeric_limits<size_t>::max()\<close> on a 64-bit target: the value of \<^verbatim>\<open>addIndex_\<close> of a
  node that was never appended to \<^verbatim>\<open>ElList_\<close>.\<close>

definition SIZE_MAX :: nat where
  "SIZE_MAX = 2 ^ 64 - 1"

text \<open>
  Modelled from the spec: the class \<^verbatim>\<open>MSWNode\<close> is declared in
  \<^verbatim>\<open>method/small_world_rand.h\<close>, which is not among the sources. Its fields are the
  payload, the assignment index and the list of friends (section 3 of the specification);
  the per-node mutex is left out of this sequential model.
\<close>

record 'o MSWNode =
  data :: 'o
  addIndex :: nat
  friends :: "ptr list"

text \<open>The errors the code raises (\<^verbatim>\<open>runtime_error\<close>), and the three ways in which its
  behaviour is undefined in C++: dereferencing the null entry point, indexing
  \<^verbatim>\<open>vector<bool>\<close> out of range, and \<^verbatim>\<open>top()\<close> of an empty priority queue.\<close>

datatype error =
    Bug_Empty_List
  | Bug_Uninit_AddIndex
  | Range_Not_Supported
  | UB_Null_Deref
  | UB_Out_Of_Range
  | UB_Empty_Top

text \<open>The members of \<^verbatim>\<open>SmallWorldRand\<close> together with the heap of node objects.\<close>

record 'o SmallWorldRand =
  NN :: nat
  initIndexAttempts :: nat
  initSearchAttempts :: nat
  indexThreadQty :: nat
  ElList :: "ptr list"
  heap :: "ptr \<Rightarrow> 'o MSWNode"
  heap_next :: ptr

text \<open>Modelled from the spec: \<^verbatim>\<open>new MSWNode(obj)\<close>, a fresh node with empty friends and the
  sentinel assignment index (section 4.1, \<^verbatim>\<open>new(payload)\<close>).\<close>

definition new_MSWNode :: "'o \<Rightarrow> 'o SmallWorldRand \<Rightarrow> ptr \<times> 'o SmallWorldRand" where
  "new_MSWNode obj st =
     (heap_next st,
      st\<lparr>heap := (heap st)(heap_next st := \<lparr>data = obj, addIndex = SIZE_MAX, friends = []\<rparr>),
         heap_next := Suc (heap_next st)\<rparr>)"

text \<open>Modelled from the spec: \<^verbatim>\<open>removeAllFriends\<close> (\<^verbatim>\<open>clear_friends\<close>) and \<^verbatim>\<open>addFriend\<close>
  (\<^verbatim>\<open>add_friend\<close>: append, no de-duplication), section 4.1.\<close>

definition removeAllFriends :: "ptr \<Rightarrow> 'o SmallWorldRand \<Rightarrow> 'o SmallWorldRand" where
  "removeAllFriends p st = st\<lparr>heap := (heap st)(p := (heap st p)\<lparr>friends := []\<rparr>)\<rparr>"

definition addFriend :: "ptr \<Rightarrow> ptr \<Rightarrow> 'o SmallWorldRand \<Rightarrow> 'o SmallWorldRand" where
  "addFriend p element st =
     st\<lparr>heap := (heap st)(p := (heap st p)\<lparr>friends := friends (heap st p) @ [element]\<rparr>)\<rparr>"

text \<open>Modelled from the spec: \<^verbatim>\<open>link(first, second)\<close>, bidirectional friending (section 4.5,
  step 4).\<close>

definition link :: "ptr \<Rightarrow> ptr \<Rightarrow> 'o SmallWorldRand \<Rightarrow> 'o SmallWorldRand" where
  "link first second st = addFriend second first (addFriend first second st)"

subsection \<open>Appending a node: \<^verbatim>\<open>addCriticalSection\<close>\<close>

definition addCriticalSection :: "ptr \<Rightarrow> 'o SmallWorldRand \<Rightarrow> 'o SmallWorldRand" where
  "addCriticalSection newElement st =
     st\<lparr>heap := (heap st)(newElement := (heap st newElement)\<lparr>addIndex := length (ElList st)\<rparr>),
        ElList := ElList st @ [newElement]\<rparr>"

subsection \<open>Priority queues\<close>

text \<open>
  A \<^verbatim>\<open>std::priority_queue\<close> is modelled by the list of its elements sorted by ascending
  key; \<^verbatim>\<open>push\<close> and \<^verbatim>\<open>emplace\<close> are \<open>insort_key\<close>. For the queues whose top is the largest
  element (\<^verbatim>\<open>closestDistQueue\<close>, and \<^verbatim>\<open>resultSet\<close> over \<^verbatim>\<open>EvaluatedMSWNodeDirect\<close>) \<^verbatim>\<open>top\<close> is
  \<open>last\<close> and \<^verbatim>\<open>pop\<close> is \<open>butlast\<close>; for the queue whose top is the smallest element (the
  candidates, over \<^verbatim>\<open>EvaluatedMSWNodeReverse\<close>) \<^verbatim>\<open>top\<close> is \<open>hd\<close> and \<^verbatim>\<open>pop\<close> is \<open>tl\<close>. Which of
  several elements with equal keys is on top is left open by the C++ standard; the list
  fixes one choice (among the candidates of equal distance the one pushed last is on top),
  which need not be the choice of the binary heap of a given library.
\<close>

text \<open>Modelled from the spec: \<^verbatim>\<open>EvaluatedMSWNodeDirect\<close> and \<^verbatim>\<open>EvaluatedMSWNodeReverse\<close> are
  declared in the missing header. An evaluated node is the pair of its distance and its
  pointer; section 4.3 makes the candidates a min-heap and the result a max-heap, both by
  distance.\<close>

type_synonym 'd ev = "'d \<times> ptr"

subsection \<open>Random entry point\<close>

text \<open>\<open>r\<close> is the value \<^verbatim>\<open>rand()\<close> returns at this call.\<close>

definition getRandomEntryPoint :: "'o SmallWorldRand \<Rightarrow> nat \<Rightarrow> ptr option" where
  "getRandomEntryPoint st r =
     (let size = length (ElList st) in
      if ElList st = [] then None
      else let num = r mod size in Some (ElList st ! num))"

subsection \<open>Index-time traversal: \<^verbatim>\<open>kSearchElementsWithAttempts\<close>\<close>

text \<open>The local variables of the traversal. The bitset and the result set live across the
  attempts, the two other queues are created anew by each attempt.\<close>

record 'd trav =
  visitedBitset :: "bool list"
  closestDistQueue :: "'d list"
  candidateSet :: "'d ev list"
  resultSet :: "'d ev list"

text \<open>The body of the loop over the neighbours (lines 284 to 318), for the neighbour \<open>p\<close>.
  \<open>IndexTimeDistance\<close> is the distance of the space, \<open>h\<close> the heap, \<open>nn\<close> the parameter
  \<^verbatim>\<open>NN\<close>. The bitset is created with \<open>entryQty\<close> bits and keeps this length, so the read
  under the guard \<open>nodeAddIndex < entryQty\<close> is in range.\<close>

definition visit_neighbor ::
  "('o \<Rightarrow> 'o \<Rightarrow> 'd::linorder) \<Rightarrow> (ptr \<Rightarrow> 'o MSWNode) \<Rightarrow> 'o \<Rightarrow> nat \<Rightarrow> nat \<Rightarrow> ptr
     \<Rightarrow> 'd trav \<Rightarrow> error + 'd trav" where
  "visit_neighbor IndexTimeDistance h queryObj nn entryQty p t =
     (let nodeAddIndex = addIndex (h p) in
      if nodeAddIndex \<ge> entryQty \<or> \<not> visitedBitset t ! nodeAddIndex then
        let bs = (if nodeAddIndex < entryQty then (visitedBitset t)[nodeAddIndex := True]
                  else visitedBitset t);
            d = IndexTimeDistance queryObj (data (h p));
            cq = insort d (closestDistQueue t);
            cq' = (if length cq > nn then butlast cq else cq);
            t' = \<lparr>visitedBitset = bs, closestDistQueue = cq',
                  candidateSet = insort_key fst (d, p) (candidateSet t),
                  resultSet = resultSet t\<rparr>;
            rs = insort_key fst (d, p) (resultSet t);
            emplaced = t'\<lparr>resultSet := (if length rs > nn then butlast rs else rs)\<rparr>
        in if length (resultSet t) < nn then Inr emplaced
           else if resultSet t = [] then Inl UB_Empty_Top
           else if fst (last (resultSet t)) > d then Inr emplaced
           else Inr t'
      else Inr t)"

text \<open>The loop over the neighbours of the expanded node.\<close>

fun visit_neighbors ::
  "('o \<Rightarrow> 'o \<Rightarrow> 'd::linorder) \<Rightarrow> (ptr \<Rightarrow> 'o MSWNode) \<Rightarrow> 'o \<Rightarrow> nat \<Rightarrow> nat \<Rightarrow> ptr list
     \<Rightarrow> 'd trav \<Rightarrow> error + 'd trav" where
  "visit_neighbors IndexTimeDistance h queryObj nn entryQty [] t = Inr t"
| "visit_neighbors IndexTimeDistance h queryObj nn entryQty (p # ps) t =
     (case visit_neighbor IndexTimeDistance h queryObj nn entryQty p t of
        Inl e \<Rightarrow> Inl e
      | Inr t' \<Rightarrow> visit_neighbors IndexTimeDistance h queryObj nn entryQty ps t')"

text \<open>The loop \<^verbatim>\<open>while (!candidateSet.empty())\<close> (lines 259 to 320). The loop need not
  terminate, so the result is an option: \<open>None\<close> stands for a loop that runs forever.\<close>

partial_function (option) expand_candidates ::
  "('o \<Rightarrow> 'o \<Rightarrow> 'd::linorder) \<Rightarrow> (ptr \<Rightarrow> 'o MSWNode) \<Rightarrow> 'o \<Rightarrow> nat \<Rightarrow> nat
     \<Rightarrow> 'd trav \<Rightarrow> (error + 'd trav) option" where
  "expand_candidates IndexTimeDistance h queryObj nn entryQty t =
     (case candidateSet t of
        [] \<Rightarrow> Some (Inr t)
      | currEv # rest \<Rightarrow>
          if closestDistQueue t = [] then Some (Inl UB_Empty_Top)
          else let lowerBound = last (closestDistQueue t) in
            if fst currEv > lowerBound then Some (Inr t)
            else let currNode = snd currEv; neighbor = friends (h currNode) in
              (case visit_neighbors IndexTimeDistance h queryObj nn entryQty neighbor
                      (t\<lparr>candidateSet := rest\<rparr>) of
                 Inl e \<Rightarrow> Some (Inl e)
               | Inr t' \<Rightarrow> expand_candidates IndexTimeDistance h queryObj nn entryQty t'))"

declare expand_candidates.simps [code]

text \<open>The start of one attempt (lines 236 to 257): the random entry point is evaluated,
  pushed on fresh queues, marked when its index is below the snapshot, and emplaced in the
  result set.\<close>

definition start_attempt ::
  "('o \<Rightarrow> 'o \<Rightarrow> 'd::linorder) \<Rightarrow> 'o SmallWorldRand \<Rightarrow> 'o \<Rightarrow> nat \<Rightarrow> nat
     \<Rightarrow> bool list \<times> 'd ev list \<Rightarrow> error + 'd trav" where
  "start_attempt IndexTimeDistance st queryObj entryQty r acc =
     (case getRandomEntryPoint st r of
        None \<Rightarrow> Inl UB_Null_Deref
      | Some provider \<Rightarrow>
          let d = IndexTimeDistance queryObj (data (heap st provider));
              bs = (if addIndex (heap st provider) < entryQty
                    then (fst acc)[addIndex (heap st provider) := True] else fst acc)
          in Inr \<lparr>visitedBitset = bs, closestDistQueue = [d], candidateSet = [(d, provider)],
                  resultSet = insort_key fst (d, provider) (snd acc)\<rparr>)"

text \<open>The loop over the attempts; the first argument counts the attempts still to run, and
  \<open>rnd j\<close> is the value of the \<open>j\<close>-th coming call of \<^verbatim>\<open>rand()\<close>.\<close>

primrec index_attempts ::
  "nat \<Rightarrow> ('o \<Rightarrow> 'o \<Rightarrow> 'd::linorder) \<Rightarrow> 'o SmallWorldRand \<Rightarrow> 'o \<Rightarrow> nat \<Rightarrow> nat
     \<Rightarrow> (nat \<Rightarrow> nat) \<Rightarrow> bool list \<times> 'd ev list \<Rightarrow> (error + bool list \<times> 'd ev list) option" where
  "index_attempts 0 IndexTimeDistance st queryObj nn entryQty rnd acc = Some (Inr acc)"
| "index_attempts (Suc n) IndexTimeDistance st queryObj nn entryQty rnd acc =
     (case start_attempt IndexTimeDistance st queryObj entryQty (rnd 0) acc of
        Inl e \<Rightarrow> Some (Inl e)
      | Inr t \<Rightarrow>
          (case expand_candidates IndexTimeDistance (heap st) queryObj nn entryQty t of
             None \<Rightarrow> None
           | Some (Inl e) \<Rightarrow> Some (Inl e)
           | Some (Inr t') \<Rightarrow>
               index_attempts n IndexTimeDistance st queryObj nn entryQty (\<lambda>j. rnd (Suc j))
                 (visitedBitset t', resultSet t')))"

definition kSearchElementsWithAttempts ::
  "('o \<Rightarrow> 'o \<Rightarrow> 'd::linorder) \<Rightarrow> (nat \<Rightarrow> nat) \<Rightarrow> 'o SmallWorldRand \<Rightarrow> 'o \<Rightarrow> nat \<Rightarrow> nat
     \<Rightarrow> 'd ev list \<Rightarrow> (error + 'd ev list) option" where
  "kSearchElementsWithAttempts IndexTimeDistance rnd st queryObj nn attempts rs =
     (let entryQty = length (ElList st) in
      case index_attempts attempts IndexTimeDistance st queryObj nn entryQty rnd
             (replicate entryQty False, rs) of
        None \<Rightarrow> None
      | Some (Inl e) \<Rightarrow> Some (Inl e)
      | Some (Inr acc) \<Rightarrow> Some (Inr (snd acc)))"

subsection \<open>Insertion: \<^verbatim>\<open>add\<close>\<close>

text \<open>The loop \<^verbatim>\<open>while (!resultSet.empty())\<close> of \<^verbatim>\<open>add\<close> (lines 349 to 352).\<close>

function link_results :: "'d ev list \<Rightarrow> ptr \<Rightarrow> 'o SmallWorldRand \<Rightarrow> 'o SmallWorldRand" where
  "link_results rs newElement st =
     (if rs = [] then st
      else link_results (butlast rs) newElement (link (snd (last rs)) newElement st))"
  by pat_completeness auto
termination
  by (relation "measure (\<lambda>(rs, newElement, st). length rs)") auto

declare link_results.simps [simp del]

text \<open>\<^verbatim>\<open>add\<close>. A raised exception is returned with the state it leaves behind; \<open>None\<close> is a
  traversal that never returns.\<close>

definition add ::
  "('o \<Rightarrow> 'o \<Rightarrow> 'd::linorder) \<Rightarrow> (nat \<Rightarrow> nat) \<Rightarrow> ptr \<Rightarrow> 'o SmallWorldRand
     \<Rightarrow> (error \<times> 'o SmallWorldRand + 'o SmallWorldRand) option" where
  "add IndexTimeDistance rnd newElement st0 =
     (let st = removeAllFriends newElement st0;
          isEmpty = (ElList st = [])
      in if isEmpty then Some (Inl (Bug_Empty_List, st))
         else (case kSearchElementsWithAttempts IndexTimeDistance rnd st
                      (data (heap st newElement)) (NN st) (initIndexAttempts st) [] of
                 None \<Rightarrow> None
               | Some (Inl e) \<Rightarrow> Some (Inl (e, st))
               | Some (Inr result) \<Rightarrow>
                   Some (Inr (addCriticalSection newElement
                                (link_results result newElement st)))))"

subsection \<open>The steps of \<^verbatim>\<open>add\<close> after the traversal\<close>

text \<open>
  The part of \<^verbatim>\<open>add\<close> that writes to the graph, one statement at a time: a configuration
  holds the entries still in \<^verbatim>\<open>resultSet\<close>, whether \<^verbatim>\<open>addCriticalSection\<close> has returned, and
  the state. An iteration of the linking loop links the top entry and pops it; when the
  result set is empty the node is appended.
\<close>

inductive add_step ::
  "ptr \<Rightarrow> 'd ev list \<times> bool \<times> 'o SmallWorldRand \<Rightarrow> 'd ev list \<times> bool \<times> 'o SmallWorldRand \<Rightarrow> bool"
  for newElement :: ptr where
  link_top: "rs \<noteq> [] \<Longrightarrow>
     add_step newElement (rs, False, st) (butlast rs, False, link (snd (last rs)) newElement st)"
| publish: "add_step newElement ([], False, st) ([], True, addCriticalSection newElement st)"

text \<open>All the links between the new node \<open>x\<close> and the entries \<open>es\<close> are present, in both
  directions.\<close>

definition links_made :: "ptr \<Rightarrow> 'd ev list \<Rightarrow> 'o SmallWorldRand \<Rightarrow> bool" where
  "links_made x es st =
     list_all (\<lambda>e. x \<in> set (friends (heap st (snd e))) \<and> snd e \<in> set (friends (heap st x))) es"

subsection \<open>Queries: \<^verbatim>\<open>Search\<close>\<close>

text \<open>\<^verbatim>\<open>Search(RangeQuery*)\<close> throws at once; the state is returned with the exception.\<close>

definition Search_Range ::
  "'o SmallWorldRand \<Rightarrow> 'q \<Rightarrow> error \<times> 'o SmallWorldRand + 'o SmallWorldRand" where
  "Search_Range st query = Inl (Range_Not_Supported, st)"

text \<open>The local variables of \<^verbatim>\<open>Search(KNNQuery*)\<close>, and the calls of \<^verbatim>\<open>CheckAndAddToResult\<close>
  made on the query object so far, in order. The query object is an external collector
  with its own policy; what the index does to it is this sequence of calls.\<close>

record ('d, 'o) qtrav =
  q_visitedBitset :: "bool list"
  q_closestDistQueue :: "'d list"
  candidateQueue :: "'d ev list"
  reported :: "('d \<times> 'o) list"

text \<open>The body of the loop over the neighbours (lines 416 to 432). \<open>DistanceObjLeft\<close> is
  the distance from the query object. Indexing the bitset at or beyond its size is
  undefined behaviour.\<close>

definition check_neighbor ::
  "('o \<Rightarrow> 'd::linorder) \<Rightarrow> (ptr \<Rightarrow> 'o MSWNode) \<Rightarrow> nat \<Rightarrow> ptr
     \<Rightarrow> ('d, 'o) qtrav \<Rightarrow> error + ('d, 'o) qtrav" where
  "check_neighbor DistanceObjLeft h nn p t =
     (let nodeAddIndex = addIndex (h p) in
      if nodeAddIndex = SIZE_MAX then Inl Bug_Uninit_AddIndex
      else if nodeAddIndex \<ge> length (q_visitedBitset t) then Inl UB_Out_Of_Range
      else if \<not> q_visitedBitset t ! nodeAddIndex then
        let currObj = data (h p);
            d = DistanceObjLeft currObj;
            cq = insort d (q_closestDistQueue t)
        in Inr \<lparr>q_visitedBitset = (q_visitedBitset t)[nodeAddIndex := True],
                q_closestDistQueue = (if length cq > nn then butlast cq else cq),
                candidateQueue = insort_key fst (d, p) (candidateQueue t),
                reported = reported t @ [(d, currObj)]\<rparr>
      else Inr t)"

fun check_neighbors ::
  "('o \<Rightarrow> 'd::linorder) \<Rightarrow> (ptr \<Rightarrow> 'o MSWNode) \<Rightarrow> nat \<Rightarrow> ptr list
     \<Rightarrow> ('d, 'o) qtrav \<Rightarrow> error + ('d, 'o) qtrav" where
  "check_neighbors DistanceObjLeft h nn [] t = Inr t"
| "check_neighbors DistanceObjLeft h nn (p # ps) t =
     (case check_neighbor DistanceObjLeft h nn p t of
        Inl e \<Rightarrow> Inl e
      | Inr t' \<Rightarrow> check_neighbors DistanceObjLeft h nn ps t')"

text \<open>The loop \<^verbatim>\<open>while(!candidateQueue.empty())\<close> (lines 397 to 434).\<close>

partial_function (option) expand_queue ::
  "('o \<Rightarrow> 'd::linorder) \<Rightarrow> (ptr \<Rightarrow> 'o MSWNode) \<Rightarrow> nat
     \<Rightarrow> ('d, 'o) qtrav \<Rightarrow> (error + ('d, 'o) qtrav) option" where
  "expand_queue DistanceObjLeft h nn t =
     (case candidateQueue t of
        [] \<Rightarrow> Some (Inr t)
      | currEv # rest \<Rightarrow>
          if q_closestDistQueue t = [] then Some (Inl UB_Empty_Top)
          else let lowerBound = last (q_closestDistQueue t) in
            if fst currEv > lowerBound then Some (Inr t)
            else let neighbor = friends (h (snd currEv)) in
              (case check_neighbors DistanceObjLeft h nn neighbor (t\<lparr>candidateQueue := rest\<rparr>) of
                 Inl e \<Rightarrow> Some (Inl e)
               | Inr t' \<Rightarrow> expand_queue DistanceObjLeft h nn t'))"

declare expand_queue.simps [code]

text \<open>The start of one search attempt (lines 379 to 395).\<close>

definition start_search ::
  "('o \<Rightarrow> 'd::linorder) \<Rightarrow> 'o SmallWorldRand \<Rightarrow> nat
     \<Rightarrow> bool list \<times> ('d \<times> 'o) list \<Rightarrow> error + ('d, 'o) qtrav" where
  "start_search DistanceObjLeft st r acc =
     (case getRandomEntryPoint st r of
        None \<Rightarrow> Inl UB_Null_Deref
      | Some provider \<Rightarrow>
          let d = DistanceObjLeft (data (heap st provider)) in
          if addIndex (heap st provider) = SIZE_MAX then Inl Bug_Uninit_AddIndex
          else if addIndex (heap st provider) \<ge> length (fst acc) then Inl UB_Out_Of_Range
          else Inr \<lparr>q_visitedBitset = (fst acc)[addIndex (heap st provider) := True],
                    q_closestDistQueue = [d], candidateQueue = [(d, provider)],
                    reported = snd acc\<rparr>)"

primrec search_attempts ::
  "nat \<Rightarrow> ('o \<Rightarrow> 'd::linorder) \<Rightarrow> 'o SmallWorldRand \<Rightarrow> (nat \<Rightarrow> nat)
     \<Rightarrow> bool list \<times> ('d \<times> 'o) list \<Rightarrow> (error + bool list \<times> ('d \<times> 'o) list) option" where
  "search_attempts 0 DistanceObjLeft st rnd acc = Some (Inr acc)"
| "search_attempts (Suc n) DistanceObjLeft st rnd acc =
     (case start_search DistanceObjLeft st (rnd 0) acc of
        Inl e \<Rightarrow> Some (Inl e)
      | Inr t \<Rightarrow>
          (case expand_queue DistanceObjLeft (heap st) (NN st) t of
             None \<Rightarrow> None
           | Some (Inl e) \<Rightarrow> Some (Inl e)
           | Some (Inr t') \<Rightarrow>
               search_attempts n DistanceObjLeft st (\<lambda>j. rnd (Suc j))
                 (q_visitedBitset t', reported t')))"

text \<open>\<^verbatim>\<open>Search(KNNQuery*)\<close>: the result is the sequence of calls of \<^verbatim>\<open>CheckAndAddToResult\<close>.\<close>

definition Search ::
  "('o \<Rightarrow> 'd::linorder) \<Rightarrow> (nat \<Rightarrow> nat) \<Rightarrow> 'o SmallWorldRand \<Rightarrow> (error + ('d \<times> 'o) list) option" where
  "Search DistanceObjLeft rnd st =
     (case search_attempts (initSearchAttempts st) DistanceObjLeft st rnd
             (replicate (length (ElList st)) False, []) of
        None \<Rightarrow> None
      | Some (Inl e) \<Rightarrow> Some (Inl e)
      | Some (Inr acc) \<Rightarrow> Some (Inr (snd acc)))"

subsection \<open>Construction\<close>

text \<open>The method parameters, each present or absent (\<^verbatim>\<open>GetParamOptional\<close> keeps the default
  of an absent one). Parsing them is outside the source file.\<close>

record AnyParams =
  param_NN :: "nat option"
  param_initIndexAttempts :: "nat option"
  param_initSearchAttempts :: "nat option"
  param_indexThreadQty :: "nat option"

definition GetParamOptional :: "'a option \<Rightarrow> 'a \<Rightarrow> 'a" where
  "GetParamOptional p v = (case p of None \<Rightarrow> v | Some w \<Rightarrow> w)"

text \<open>The sequential loop of the constructor (lines 140 to 144) over the objects after the
  first; each call of \<^verbatim>\<open>add\<close> draws \<^verbatim>\<open>initIndexAttempts_\<close> random numbers.\<close>

fun add_objects ::
  "('o \<Rightarrow> 'o \<Rightarrow> 'd::linorder) \<Rightarrow> (nat \<Rightarrow> nat) \<Rightarrow> 'o list \<Rightarrow> 'o SmallWorldRand
     \<Rightarrow> (error \<times> 'o SmallWorldRand + 'o SmallWorldRand) option" where
  "add_objects IndexTimeDistance rnd [] st = Some (Inr st)"
| "add_objects IndexTimeDistance rnd (obj # objs) st =
     (let (node, st1) = new_MSWNode obj st in
      case add IndexTimeDistance rnd node st1 of
        None \<Rightarrow> None
      | Some (Inl e) \<Rightarrow> Some (Inl e)
      | Some (Inr st2) \<Rightarrow>
          add_objects IndexTimeDistance (\<lambda>j. rnd (initIndexAttempts st + j)) objs st2)"

text \<open>The indices that the worker thread \<open>w\<close> of \<open>T\<close> inserts (\<^verbatim>\<open>IndexThreadSW\<close>, lines 81
  and 82), for a data set of \<open>n\<close> objects.\<close>

definition worker_indices :: "nat \<Rightarrow> nat \<Rightarrow> nat \<Rightarrow> nat list" where
  "worker_indices T w n = filter (\<lambda>i. w = i mod T) [1..<n]"

text \<open>What the constructor leaves: an index, an exception, or, when worker threads that
  have nodes to insert were started, the index at that moment (the concurrent insertions
  are outside this sequential model).\<close>

datatype 'o construction =
    Constructed "'o SmallWorldRand"
  | Threw error
  | Workers_Inserting "'o SmallWorldRand"

text \<open>The constructor. \<open>max_threads\<close> is the value of \<^verbatim>\<open>indexThreadQty_\<close> before the
  parameters are read (0, or \<^verbatim>\<open>omp_get_max_threads()\<close>), \<open>h0\<close> the content of the free
  store. Worker threads without any index to insert leave the index as it is.\<close>

definition SmallWorldRand_ctor ::
  "('o \<Rightarrow> 'o \<Rightarrow> 'd::linorder) \<Rightarrow> (nat \<Rightarrow> nat) \<Rightarrow> nat \<Rightarrow> (ptr \<Rightarrow> 'o MSWNode) \<Rightarrow> AnyParams \<Rightarrow> 'o list
     \<Rightarrow> 'o construction option" where
  "SmallWorldRand_ctor IndexTimeDistance rnd max_threads h0 MethParams dat =
     (let st = \<lparr>NN = GetParamOptional (param_NN MethParams) 5,
                initIndexAttempts = GetParamOptional (param_initIndexAttempts MethParams) 2,
                initSearchAttempts = GetParamOptional (param_initSearchAttempts MethParams) 10,
                indexThreadQty = GetParamOptional (param_indexThreadQty MethParams) max_threads,
                ElList = [], heap = h0, heap_next = 0\<rparr>
      in case dat of
           [] \<Rightarrow> Some (Constructed st)
         | obj # objs \<Rightarrow>
             let (node, st1) = new_MSWNode obj st;
                 st2 = addCriticalSection node st1
             in if indexThreadQty st2 \<le> 1 then
                  (case add_objects IndexTimeDistance rnd objs st2 of
                     None \<Rightarrow> None
                   | Some (Inl e) \<Rightarrow> Some (Threw (fst e))
                   | Some (Inr st3) \<Rightarrow> Some (Constructed st3))
                else if list_all (\<lambda>w. worker_indices (indexThreadQty st2) w (length dat) = [])
                          [0..<indexThreadQty st2]
                  then Some (Constructed st2)
                  else Some (Workers_Inserting st2))"

subsection \<open>Well-formed graphs and the invariants of the traversal\<close>

text \<open>The published nodes carry the indices \<open>0, ..., N - 1\<close> in the order of the list, and
  every friend of a published node is published.\<close>

definition graph_ok :: "(ptr \<Rightarrow> 'o MSWNode) \<Rightarrow> ptr list \<Rightarrow> bool" where
  "graph_ok h els \<longleftrightarrow>
     map (\<lambda>p. addIndex (h p)) els = [0..<length els]
     \<and> list_all (\<lambda>p. list_all (\<lambda>f. f \<in> set els) (friends (h p))) els"

text \<open>What holds of the traversal state throughout every attempt on such a graph.\<close>

definition trav_inv :: "ptr list \<Rightarrow> 'd trav \<Rightarrow> bool" where
  "trav_inv els t \<longleftrightarrow>
     length (visitedBitset t) = length els
     \<and> snd ` set (candidateSet t) \<subseteq> set els
     \<and> snd ` set (resultSet t) \<subseteq> set els
     \<and> resultSet t \<noteq> [] \<and> closestDistQueue t \<noteq> []"

text \<open>The quantity that every iteration of the candidate loop decreases.\<close>

definition trav_measure :: "'d trav \<Rightarrow> nat" where
  "trav_measure t = 2 * count_list (visitedBitset t) False + length (candidateSet t)"

text \<open>What holds in addition during the first attempt: the candidates are marked, the
  queue of closest distances is sorted and holds every distance evaluated so far while there
  are at most \<open>nn\<close> of them, and the result set has at least as many entries as nodes were
  evaluated, up to \<open>nn\<close>.\<close>

definition count_inv :: "(ptr \<Rightarrow> 'o MSWNode) \<Rightarrow> nat \<Rightarrow> 'd::linorder trav \<Rightarrow> bool" where
  "count_inv h nn t \<longleftrightarrow>
     (\<forall>e\<in>set (candidateSet t). visitedBitset t ! addIndex (h (snd e)))
     \<and> sorted (closestDistQueue t)
     \<and> (count_list (visitedBitset t) True \<le> nn
          \<longrightarrow> fst ` set (candidateSet t) \<subseteq> set (closestDistQueue t))
     \<and> length (closestDistQueue t) \<le> count_list (visitedBitset t) True
     \<and> min (count_list (visitedBitset t) True) nn \<le> length (resultSet t)"

text \<open>Every marked node is still a candidate or has all its friends marked.\<close>

definition closed_inv :: "(ptr \<Rightarrow> 'o MSWNode) \<Rightarrow> ptr list \<Rightarrow> 'd trav \<Rightarrow> bool" where
  "closed_inv h els t \<longleftrightarrow>
     (\<forall>p\<in>set els. visitedBitset t ! addIndex (h p) \<longrightarrow>
        p \<in> snd ` set (candidateSet t)
        \<or> (\<forall>f\<in>set (friends (h p)). visitedBitset t ! addIndex (h f)))"

text \<open>From \<open>t\<close> to \<open>t'\<close> marks and candidates are only added, and every newly marked node is
  a candidate.\<close>

definition grows :: "(ptr \<Rightarrow> 'o MSWNode) \<Rightarrow> ptr list \<Rightarrow> 'd trav \<Rightarrow> 'd trav \<Rightarrow> bool" where
  "grows h els t t' \<longleftrightarrow>
     (\<forall>p\<in>set els. visitedBitset t ! addIndex (h p) \<longrightarrow> visitedBitset t' ! addIndex (h p))
     \<and> set (candidateSet t) \<subseteq> set (candidateSet t')
     \<and> (\<forall>p\<in>set els. visitedBitset t' ! addIndex (h p) \<longrightarrow>
           visitedBitset t ! addIndex (h p) \<or> p \<in> snd ` set (candidateSet t'))"

text \<open>Every published node is reachable from every other along friend edges.\<close>

definition graph_connected :: "(ptr \<Rightarrow> 'o MSWNode) \<Rightarrow> ptr list \<Rightarrow> bool" where
  "graph_connected h els \<longleftrightarrow>
     (\<forall>p\<in>set els. \<forall>q\<in>set els.
        (p, q) \<in> {(a, b). a \<in> set els \<and> b \<in> set (friends (h a))}\<^sup>*)"

text \<open>The invariant of the candidate loop in the first attempt, started at \<open>s\<close>.\<close>

definition first_inv ::
  "(ptr \<Rightarrow> 'o MSWNode) \<Rightarrow> ptr list \<Rightarrow> nat \<Rightarrow> ptr \<Rightarrow> 'd::linorder trav \<Rightarrow> bool" where
  "first_inv h els nn s t \<longleftrightarrow>
     trav_inv els t \<and> count_inv h nn t \<and> closed_inv h els t \<and> visitedBitset t ! addIndex (h s)"

text \<open>What holds of the result set during the first attempt when \<open>nn\<close> is positive: it has at
  most \<open>nn\<close> entries and at most one entry per marked node, and the nodes of its entries are
  marked and differ from each other.\<close>

definition result_inv :: "(ptr \<Rightarrow> 'o MSWNode) \<Rightarrow> nat \<Rightarrow> 'd trav \<Rightarrow> bool" where
  "result_inv h nn t \<longleftrightarrow>
     length (resultSet t) \<le> nn
     \<and> length (resultSet t) \<le> count_list (visitedBitset t) True
     \<and> distinct (map snd (resultSet t))
     \<and> (\<forall>e\<in>set (resultSet t). visitedBitset t ! addIndex (h (snd e)))"

text \<open>What holds of the result set during a later attempt: the loop keeps its size \<open>k\<close>,
  because the result set is full or every node is marked.\<close>

definition full_inv :: "nat \<Rightarrow> nat \<Rightarrow> 'd trav \<Rightarrow> bool" where
  "full_inv nn k t \<longleftrightarrow>
     length (resultSet t) = k \<and> (nn \<le> k \<or> count_list (visitedBitset t) False = 0)"

text \<open>What holds of the index between two insertions of the sequential build: the graph is
  well formed, connected and not empty, and its nodes were allocated.\<close>

definition build_inv :: "'o SmallWorldRand \<Rightarrow> bool" where
  "build_inv st \<longleftrightarrow>
     graph_ok (heap st) (ElList st) \<and> graph_connected (heap st) (ElList st)
     \<and> ElList st \<noteq> [] \<and> list_all (\<lambda>p. p < heap_next st) (ElList st)"

subsection \<open>Example spaces and states\<close>

text \<open>The integers with the distance \<open>|a - b|\<close>.\<close>

definition abs_dist :: "int \<Rightarrow> int \<Rightarrow> int" where
  "abs_dist a b = \<bar>a - b\<bar>"

text \<open>An index without nodes, with the default parameters.\<close>

definition empty_index :: "int SmallWorldRand" where
  "empty_index =
     \<lparr>NN = 5, initIndexAttempts = 2, initSearchAttempts = 10, indexThreadQty = 0, ElList = [],
      heap = (\<lambda>_. \<lparr>data = 0, addIndex = SIZE_MAX, friends = []\<rparr>), heap_next = 0\<rparr>"

text \<open>The index built from the single object 10 with the default parameters, and a new
  node 1 for the object 0, as the constructor creates it before it calls \<^verbatim>\<open>add\<close>.\<close>

definition one_index :: "int SmallWorldRand" where
  "one_index =
     \<lparr>NN = 5, initIndexAttempts = 2, initSearchAttempts = 10, indexThreadQty = 0, ElList = [0],
      heap = (\<lambda>_. \<lparr>data = 0, addIndex = SIZE_MAX, friends = []\<rparr>)
               (0 := \<lparr>data = 10, addIndex = 0, friends = []\<rparr>),
      heap_next = 2\<rparr>"

text \<open>The free store before an index is constructed.\<close>

definition free_store :: "ptr \<Rightarrow> int MSWNode" where
  "free_store = (\<lambda>_. \<lparr>data = 0, addIndex = SIZE_MAX, friends = []\<rparr>)"

text \<open>The index that the sequential constructor builds from the objects 1 and 2 with
  \<open>NN = 1\<close> and two attempts, and a new node 2 for the object 0: the second node was linked
  twice to the first, its entry point in both attempts.\<close>

definition two_heap :: "ptr \<Rightarrow> int MSWNode" where
  "two_heap =
     (\<lambda>_. \<lparr>data = 0, addIndex = SIZE_MAX, friends = []\<rparr>)
       (0 := \<lparr>data = 1, addIndex = 0, friends = [1, 1]\<rparr>,
        1 := \<lparr>data = 2, addIndex = 1, friends = [0, 0]\<rparr>)"

definition two_index :: "int SmallWorldRand" where
  "two_index = \<lparr>NN = 1, initIndexAttempts = 2, initSearchAttempts = 10, indexThreadQty = 0,
                ElList = [0, 1], heap = two_heap, heap_next = 3\<rparr>"

text \<open>The index that the sequential constructor builds from the objects 10, 20 and 30 with
  \<open>NN = 2\<close> and a single attempt when \<^verbatim>\<open>rand()\<close> returns 0 at every call, and a new node 3
  for the object 0.\<close>

definition three_heap :: "ptr \<Rightarrow> int MSWNode" where
  "three_heap =
     (\<lambda>_. \<lparr>data = 0, addIndex = SIZE_MAX, friends = []\<rparr>)
       (0 := \<lparr>data = 10, addIndex = 0, friends = [1, 2]\<rparr>,
        1 := \<lparr>data = 20, addIndex = 1, friends = [0, 2]\<rparr>,
        2 := \<lparr>data = 30, addIndex = 2, friends = [0, 1]\<rparr>)"

definition three_index :: "int SmallWorldRand" where
  "three_index = \<lparr>NN = 2, initIndexAttempts = 1, initSearchAttempts = 10, indexThreadQty = 0,
                  ElList = [0, 1, 2], heap = three_heap, heap_next = 4\<rparr>"

text \<open>
  Three threads insert duplicates of the object 0 into the index that holds the object 10,
  with \<^verbatim>\<open>NN_\<close> and \<^verbatim>\<open>initIndexAttempts_\<close> 1. In \<open>loop_start\<close> node 0 (object 10) is published and
  the nodes 1, 2 and 3 (object 0) have been created. \<open>loop_mid\<close> is the state when the first
  thread has linked node 1 (to node 0) and has not yet reached \<^verbatim>\<open>addCriticalSection\<close>;
  \<open>loop_index\<close>, with the heap \<open>loop_heap\<close>, is the state when the second thread has then
  linked node 2 (to node 1, its nearest node) and has not yet reached \<^verbatim>\<open>addCriticalSection\<close>
  either: the nodes 1 and 2 are friends of each other and still carry the sentinel index.
  The third thread then inserts node 3.
\<close>

definition loop_start :: "int SmallWorldRand" where
  "loop_start = \<lparr>NN = 1, initIndexAttempts = 1, initSearchAttempts = 10, indexThreadQty = 3,
                 ElList = [0],
                 heap = (\<lambda>_. \<lparr>data = 0, addIndex = SIZE_MAX, friends = []\<rparr>)
                          (0 := \<lparr>data = 10, addIndex = 0, friends = []\<rparr>),
                 heap_next = 4\<rparr>"

definition loop_mid :: "int SmallWorldRand" where
  "loop_mid = link 0 (Suc 0) (removeAllFriends (Suc 0) loop_start)"

definition loop_heap :: "ptr \<Rightarrow> int MSWNode" where
  "loop_heap =
     (\<lambda>_. \<lparr>data = 0, addIndex = SIZE_MAX, friends = []\<rparr>)
       (0 := \<lparr>data = 10, addIndex = 0, friends = [1]\<rparr>,
        1 := \<lparr>data = 0, addIndex = SIZE_MAX, friends = [0, 2]\<rparr>,
        2 := \<lparr>data = 0, addIndex = SIZE_MAX, friends = [1]\<rparr>)"

definition loop_index :: "int SmallWorldRand" where
  "loop_index = \<lparr>NN = 1, initIndexAttempts = 1, initSearchAttempts = 10, indexThreadQty = 3,
                 ElList = [0], heap = loop_heap, heap_next = 4\<rparr>"

text \<open>The two states of the traversal between which the insertion of node 3 alternates:
  the candidate is node 1, then node 2, then node 1 again.\<close>

definition loop_trav :: "ptr \<Rightarrow> int trav" where
  "loop_trav p = \<lparr>visitedBitset = [True], closestDistQueue = [0], candidateSet = [(0, p)],
                   resultSet = [(0, 1)]\<rparr>"

section \<open>Density of the assignment indices\<close>

lemma fold_addCriticalSection_ElList:
  "ElList (fold addCriticalSection ps st) = ElList st @ ps"
  by (induction ps arbitrary: st) (simp_all add: addCriticalSection_def)

lemma fold_addCriticalSection_other:
  "p \<notin> set ps \<Longrightarrow> heap (fold addCriticalSection ps st) p = heap st p"
  by (induction ps arbitrary: st) (auto simp: addCriticalSection_def)

lemma fold_addCriticalSection_index:
  "distinct ps \<Longrightarrow> i < length ps \<Longrightarrow>
   addIndex (heap (fold addCriticalSection ps st) (ps ! i)) = length (ElList st) + i"
proof (induction ps arbitrary: st i)
  case Nil
  then show ?case by simp
next
  case (Cons p ps)
  show ?case
  proof (cases i)
    case 0
    have "p \<notin> set ps" using Cons.prems(1) by simp
    then have "heap (fold addCriticalSection ps (addCriticalSection p st)) p
        = heap (addCriticalSection p st) p"
      by (rule fold_addCriticalSection_other)
    moreover have "addIndex (heap (addCriticalSection p st) p) = length (ElList st)"
      by (simp add: addCriticalSection_def)
    ultimately show ?thesis using 0 by simp
  next
    case (Suc j)
    then have "j < length ps" using Cons.prems(2) by simp
    moreover have "distinct ps" using Cons.prems(1) by simp
    ultimately have "addIndex (heap (fold addCriticalSection ps (addCriticalSection p st)) (ps ! j))
        = length (ElList (addCriticalSection p st)) + j"
      by (rule Cons.IH[rotated])
    then have "addIndex (heap (fold addCriticalSection ps (addCriticalSection p st)) (ps ! j))
        = length (ElList (addCriticalSection p st)) + j" .
    moreover have "length (ElList (addCriticalSection p st)) = Suc (length (ElList st))"
      by (simp add: addCriticalSection_def)
    ultimately show ?thesis using Suc by simp
  qed
qed

text \<open>
  Claim C5. Starting from an empty graph, appending \<open>N\<close> nodes (distinct node objects, as
  the callers pass them) with \<^verbatim>\<open>addCriticalSection\<close> leaves a graph with exactly \<open>N\<close>
  entries, the nodes in append order; the \<open>i\<close>-th appended node carries the assignment
  index \<open>i\<close>, so the indices are exactly the set \<open>{0, ..., N - 1}\<close>.
\<close>

theorem addCriticalSection_density:
  assumes "ElList st = []" and "distinct ps"
  shows "ElList (fold addCriticalSection ps st) = ps
       \<and> length (ElList (fold addCriticalSection ps st)) = length ps
       \<and> (\<forall>i<length ps. addIndex (heap (fold addCriticalSection ps st) (ps ! i)) = i)
       \<and> (\<lambda>p. addIndex (heap (fold addCriticalSection ps st) p))
            ` set (ElList (fold addCriticalSection ps st)) = {0..<length ps}"
proof -
  let ?st = "fold addCriticalSection ps st"
  have el: "ElList ?st = ps"
    using assms(1) by (simp add: fold_addCriticalSection_ElList)
  have idx: "\<forall>i<length ps. addIndex (heap ?st (ps ! i)) = i"
    using fold_addCriticalSection_index[OF assms(2), of _ st] assms(1) by simp
  have "(\<lambda>p. addIndex (heap ?st p)) ` set ps = {0..<length ps}"
  proof (intro equalityI subsetI)
    fix n assume "n \<in> (\<lambda>p. addIndex (heap ?st p)) ` set ps"
    then obtain i where "i < length ps" "n = addIndex (heap ?st (ps ! i))"
      by (auto simp: in_set_conv_nth)
    then show "n \<in> {0..<length ps}" using idx by simp
  next
    fix n assume "n \<in> {0..<length ps}"
    then have "n < length ps" by simp
    then have "ps ! n \<in> set ps" "addIndex (heap ?st (ps ! n)) = n" using idx by simp_all
    then show "n \<in> (\<lambda>p. addIndex (heap ?st p)) ` set ps" by force
  qed
  then show ?thesis using el idx by simp
qed

theorem addCriticalSection_density_witness:
  "ElList empty_index = [] \<and> distinct [0, 1, 2 :: ptr]
   \<and> ElList (fold addCriticalSection [0, 1, 2] empty_index) = [0, 1, 2]
   \<and> addIndex (heap (fold addCriticalSection [0, 1, 2] empty_index) 0) = 0
   \<and> addIndex (heap (fold addCriticalSection [0, 1, 2] empty_index) 1) = 1
   \<and> addIndex (heap (fold addCriticalSection [0, 1, 2] empty_index) 2) = 2"
proof -
  have e: "ElList empty_index = []" by (simp add: empty_index_def)
  have d: "distinct [0, 1, 2 :: ptr]" by simp
  have idx: "addIndex (heap (fold addCriticalSection [0, 1, 2] empty_index) ([0, 1, 2] ! i)) = i"
    if "i < 3" for i
    using addCriticalSection_density[OF e d] that by simp
  have "addIndex (heap (fold addCriticalSection [0, 1, 2] empty_index) 0) = 0"
    "addIndex (heap (fold addCriticalSection [0, 1, 2] empty_index) 1) = 1"
    "addIndex (heap (fold addCriticalSection [0, 1, 2] empty_index) 2) = 2"
    using idx[of 0] idx[of 1] idx[of 2] by simp_all
  then show ?thesis using addCriticalSection_density[OF e d] e d by simp
qed

section \<open>Insertion into an empty graph\<close>

text \<open>
  Claim C6. \<^verbatim>\<open>add\<close> on a graph without published nodes throws the error "Bug: the list
  of nodes shouldn't be empty!" before any traversal or linking. In the state it leaves,
  the list of nodes is still empty and every node object is as before, except that the
  friends of the node passed in (which is not part of the graph) have been cleared.
\<close>

theorem add_empty_graph_throws:
  assumes "ElList st = []"
  shows "\<exists>st'. add IndexTimeDistance rnd newElement st = Some (Inl (Bug_Empty_List, st'))
           \<and> ElList st' = []
           \<and> (\<forall>p. p \<noteq> newElement \<longrightarrow> heap st' p = heap st p)
           \<and> data (heap st' newElement) = data (heap st newElement)
           \<and> addIndex (heap st' newElement) = addIndex (heap st newElement)"
  using assms by (simp add: add_def removeAllFriends_def)

theorem add_empty_graph_throws_witness:
  "ElList empty_index = []
   \<and> (\<exists>st'. add abs_dist (\<lambda>_. 0) 0 empty_index = Some (Inl (Bug_Empty_List, st'))
           \<and> ElList st' = []
           \<and> (\<forall>p. p \<noteq> 0 \<longrightarrow> heap st' p = heap empty_index p)
           \<and> data (heap st' 0) = data (heap empty_index 0)
           \<and> addIndex (heap st' 0) = addIndex (heap empty_index 0))"
proof -
  have e: "ElList empty_index = []" by (simp add: empty_index_def)
  from add_empty_graph_throws[OF e, of abs_dist "\<lambda>_. 0" 0] e show ?thesis by simp
qed

section \<open>Range queries\<close>

text \<open>
  Claim C7. For every index and every range query, \<^verbatim>\<open>Search(RangeQuery*)\<close> throws "Range
  search is not supported!" as its only action: nothing is traversed and the index is left
  as it was.
\<close>

theorem Search_Range_unsupported:
  "Search_Range st query = Inl (Range_Not_Supported, st)"
  by (simp add: Search_Range_def)

section \<open>Nearest-neighbour queries on small graphs\<close>

lemma getRandomEntryPoint_None_iff: "getRandomEntryPoint st r = None \<longleftrightarrow> ElList st = []"
  by (simp add: getRandomEntryPoint_def Let_def)

text \<open>
  Claim C10. \<^verbatim>\<open>getRandomEntryPoint\<close> returns the null pointer exactly when no node is
  published, and \<^verbatim>\<open>Search(KNNQuery*)\<close> on such a graph dereferences it in its first attempt
  (\<^verbatim>\<open>initSearchAttempts_\<close> is a positive number, as the specification requires): the
  behaviour is undefined, where \<^verbatim>\<open>add\<close> raises an error.
\<close>

theorem Search_empty_graph_null_deref:
  "(\<forall>r. getRandomEntryPoint st r = None \<longleftrightarrow> ElList st = [])
   \<and> (ElList st = [] \<longrightarrow> 0 < initSearchAttempts st \<longrightarrow>
        Search DistanceObjLeft rnd st = Some (Inl UB_Null_Deref))"
proof -
  have "Search DistanceObjLeft rnd st = Some (Inl UB_Null_Deref)"
    if "ElList st = []" and "0 < initSearchAttempts st"
  proof -
    obtain n where n: "initSearchAttempts st = Suc n"
      using \<open>0 < initSearchAttempts st\<close> by (cases "initSearchAttempts st") auto
    have "start_search DistanceObjLeft st (rnd 0) (replicate (length (ElList st)) False, [])
            = Inl UB_Null_Deref"
      using \<open>ElList st = []\<close> by (simp add: start_search_def getRandomEntryPoint_def)
    then show ?thesis by (simp add: Search_def n)
  qed
  then show ?thesis by (simp add: getRandomEntryPoint_None_iff)
qed

theorem Search_empty_graph_null_deref_witness:
  "ElList empty_index = [] \<and> 0 < initSearchAttempts empty_index
   \<and> getRandomEntryPoint empty_index 7 = None
   \<and> Search (abs_dist 3) (\<lambda>_. 0) empty_index = Some (Inl UB_Null_Deref)"
proof -
  have e: "ElList empty_index = []" "0 < initSearchAttempts empty_index"
    by (simp_all add: empty_index_def)
  from Search_empty_graph_null_deref[of empty_index "abs_dist 3" "\<lambda>_. 0"] e
  show ?thesis by simp
qed

lemma ctor_single:
  "\<exists>st. SmallWorldRand_ctor D rnd mt h0 prm [A] = Some (Constructed st)
     \<and> ElList st = [0] \<and> friends (heap st 0) = [] \<and> data (heap st 0) = A
     \<and> addIndex (heap st 0) = 0 \<and> NN st = GetParamOptional (param_NN prm) 5"
  by (simp add: SmallWorldRand_ctor_def Let_def new_MSWNode_def addCriticalSection_def
      worker_indices_def list_all_iff)

lemma expand_queue_leaf:
  assumes "friends (h p) = []"
  shows "expand_queue DistanceObjLeft h nn
           \<lparr>q_visitedBitset = bs, q_closestDistQueue = [d], candidateQueue = [(d, p)],
            reported = rep\<rparr>
         = Some (Inr \<lparr>q_visitedBitset = bs, q_closestDistQueue = [d], candidateQueue = [],
                      reported = rep\<rparr>)"
  apply (subst expand_queue.simps)
  apply (simp add: assms)
  apply (subst expand_queue.simps)
  apply simp
  done

lemma search_attempts_single:
  assumes "ElList st = [p]" and "friends (heap st p) = []" and "addIndex (heap st p) = 0"
    and "length bs = 1"
  shows "\<exists>bs'. length bs' = 1
           \<and> search_attempts n DistanceObjLeft st rnd (bs, rep) = Some (Inr (bs', rep))"
  using assms(4)
proof (induction n arbitrary: bs rnd)
  case 0
  then show ?case by simp
next
  case (Suc n)
  have s: "start_search DistanceObjLeft st (rnd 0) (bs, rep)
     = Inr \<lparr>q_visitedBitset = bs[0 := True],
            q_closestDistQueue = [DistanceObjLeft (data (heap st p))],
            candidateQueue = [(DistanceObjLeft (data (heap st p)), p)], reported = rep\<rparr>"
    using assms(1,3) Suc.prems
    by (simp add: start_search_def getRandomEntryPoint_def SIZE_MAX_def Let_def)
  have "length (bs[0 := True]) = 1" using Suc.prems by simp
  from Suc.IH[OF this] show ?case
    using assms(2) by (simp add: s expand_queue_leaf)
qed

text \<open>
  Claim C1. The index built from the single object \<open>A\<close> has one published node, which
  holds \<open>A\<close> and has no friends. A nearest-neighbour query on it returns without a single
  call of \<^verbatim>\<open>CheckAndAddToResult\<close>, whatever the query object and the parameters are: the
  entry point is evaluated but never reported, so \<open>A\<close> is not reported.
\<close>

theorem Search_single_node_reports_nothing:
  "\<exists>st. SmallWorldRand_ctor IndexTimeDistance rnd max_threads h0 MethParams [A]
           = Some (Constructed st)
     \<and> (\<exists>p. ElList st = [p] \<and> friends (heap st p) = [] \<and> data (heap st p) = A)
     \<and> Search DistanceObjLeft rnd' st = Some (Inr [])"
proof -
  obtain st where st:
    "SmallWorldRand_ctor IndexTimeDistance rnd max_threads h0 MethParams [A] = Some (Constructed st)"
    "ElList st = [0]" "friends (heap st 0) = []" "data (heap st 0) = A" "addIndex (heap st 0) = 0"
    using ctor_single[of IndexTimeDistance rnd max_threads h0 MethParams A] by blast
  obtain bs' where
    "search_attempts (initSearchAttempts st) DistanceObjLeft st rnd'
       (replicate (length (ElList st)) False, []) = Some (Inr (bs', []))"
    using search_attempts_single[OF st(2,3,5), of "replicate (length (ElList st)) False"
        "initSearchAttempts st" DistanceObjLeft rnd' "[]"] st(2)
    by auto
  then have "Search DistanceObjLeft rnd' st = Some (Inr [])" by (simp add: Search_def)
  then show ?thesis using st by auto
qed

section \<open>Construction with \<open>NN = 0\<close>\<close>

text \<open>
  Claim C3. The constructor accepts the parameter \<open>NN = 0\<close>: it returns an index with
  \<^verbatim>\<open>NN_\<close> 0 and the first object published, without raising any error.
\<close>

theorem ctor_accepts_NN_zero:
  "\<exists>st. SmallWorldRand_ctor IndexTimeDistance rnd max_threads h0
           \<lparr>param_NN = Some 0, param_initIndexAttempts = None,
            param_initSearchAttempts = None, param_indexThreadQty = None\<rparr> [A]
           = Some (Constructed st)
     \<and> NN st = 0 \<and> length (ElList st) = 1"
  using ctor_single[of IndexTimeDistance rnd max_threads h0
      "\<lparr>param_NN = Some 0, param_initIndexAttempts = None,
        param_initSearchAttempts = None, param_indexThreadQty = None\<rparr>" A]
  by (auto simp: GetParamOptional_def)

section \<open>A traversal that does not terminate\<close>

lemma loop_heap_simps:
  "loop_heap 0 = \<lparr>data = 10, addIndex = 0, friends = [1]\<rparr>"
  "loop_heap (Suc 0) = \<lparr>data = 0, addIndex = SIZE_MAX, friends = [0, 2]\<rparr>"
  "loop_heap 2 = \<lparr>data = 0, addIndex = SIZE_MAX, friends = [1]\<rparr>"
  "loop_heap 3 = \<lparr>data = 0, addIndex = SIZE_MAX, friends = []\<rparr>"
  by (simp_all add: loop_heap_def)

lemma SIZE_MAX_ge1: "Suc 0 \<le> SIZE_MAX" "SIZE_MAX \<noteq> 0"
  by (simp_all add: SIZE_MAX_def)

lemma loop_trav_sel:
  "candidateSet (loop_trav p) = [(0, p)]" "closestDistQueue (loop_trav p) = [0]"
  by (simp_all add: loop_trav_def)

lemma loop_step1:
  "visit_neighbors abs_dist loop_heap 0 (Suc 0) (Suc 0) (friends (loop_heap (Suc 0)))
     ((loop_trav (Suc 0))\<lparr>candidateSet := []\<rparr>) = Inr (loop_trav 2)"
  by (simp add: loop_heap_simps visit_neighbor_def loop_trav_def abs_dist_def SIZE_MAX_ge1 Let_def)

lemma loop_step2:
  "visit_neighbors abs_dist loop_heap 0 (Suc 0) (Suc 0) (friends (loop_heap 2))
     ((loop_trav 2)\<lparr>candidateSet := []\<rparr>) = Inr (loop_trav (Suc 0))"
  by (simp add: loop_heap_simps visit_neighbor_def loop_trav_def abs_dist_def SIZE_MAX_ge1 Let_def)

text \<open>Whenever the loop returns, it was not started in one of the two alternating states.\<close>

lemma loop_never_returns:
  assumes "expand_candidates D h q nn eq t = Some y"
  shows "D = abs_dist \<and> h = loop_heap \<and> q = 0 \<and> nn = Suc 0 \<and> eq = Suc 0
           \<longrightarrow> t \<noteq> loop_trav (Suc 0) \<and> t \<noteq> loop_trav 2"
proof (rule expand_candidates.raw_induct[where P = "\<lambda>D h q nn eq t y.
          D = abs_dist \<and> h = loop_heap \<and> q = 0 \<and> nn = Suc 0 \<and> eq = Suc 0
            \<longrightarrow> t \<noteq> loop_trav (Suc 0) \<and> t \<noteq> loop_trav 2",
        OF _ assms])
  fix f :: "(int \<Rightarrow> int \<Rightarrow> int) \<Rightarrow> (ptr \<Rightarrow> int MSWNode) \<Rightarrow> int \<Rightarrow> nat \<Rightarrow> nat
              \<Rightarrow> int trav \<Rightarrow> (error + int trav) option"
    and D h q nn eq t y
  assume IH: "\<And>D h q nn eq t y. f D h q nn eq t = Some y \<Longrightarrow>
          D = abs_dist \<and> h = loop_heap \<and> q = 0 \<and> nn = Suc 0 \<and> eq = Suc 0
            \<longrightarrow> t \<noteq> loop_trav (Suc 0) \<and> t \<noteq> loop_trav 2"
    and body: "(case candidateSet t of [] \<Rightarrow> Some (Inr t)
      | currEv # rest \<Rightarrow>
          if closestDistQueue t = [] then Some (Inl UB_Empty_Top)
          else let lowerBound = last (closestDistQueue t)
               in if lowerBound < fst currEv then Some (Inr t)
                  else let currNode = snd currEv; neighbor = friends (h currNode)
                       in case visit_neighbors D h q nn eq neighbor (t\<lparr>candidateSet := rest\<rparr>) of
                          Inl e \<Rightarrow> Some (Inl e)
                          | Inr t' \<Rightarrow> f D h q nn eq t') = Some y"
  show "D = abs_dist \<and> h = loop_heap \<and> q = 0 \<and> nn = Suc 0 \<and> eq = Suc 0
          \<longrightarrow> t \<noteq> loop_trav (Suc 0) \<and> t \<noteq> loop_trav 2"
  proof (intro impI)
    assume a: "D = abs_dist \<and> h = loop_heap \<and> q = 0 \<and> nn = Suc 0 \<and> eq = Suc 0"
    have n1: "t \<noteq> loop_trav (Suc 0)"
    proof
      assume t: "t = loop_trav (Suc 0)"
      have "f abs_dist loop_heap 0 (Suc 0) (Suc 0) (loop_trav 2) = Some y"
        using body a loop_step1 unfolding t
        by (simp add: loop_trav_sel)
      from IH[OF this] show False by simp
    qed
    have n2: "t \<noteq> loop_trav 2"
    proof
      assume t: "t = loop_trav 2"
      have "f abs_dist loop_heap 0 (Suc 0) (Suc 0) (loop_trav (Suc 0)) = Some y"
        using body a loop_step2 unfolding t
        by (simp add: loop_trav_sel)
      from IH[OF this] show False by simp
    qed
    from n1 n2 show "t \<noteq> loop_trav (Suc 0) \<and> t \<noteq> loop_trav 2" by simp
  qed
qed

lemma loop_diverges:
  "expand_candidates abs_dist loop_heap 0 (Suc 0) (Suc 0) (loop_trav (Suc 0)) = None"
proof (cases "expand_candidates abs_dist loop_heap 0 (Suc 0) (Suc 0) (loop_trav (Suc 0))")
  case None
  then show ?thesis .
next
  case (Some y)
  from loop_never_returns[OF this] show ?thesis by simp
qed

text \<open>From the entry point, node 0, the traversal reaches the first alternating state.\<close>

lemma loop_first_steps:
  "expand_candidates abs_dist loop_heap 0 (Suc 0) (Suc 0)
     \<lparr>visitedBitset = [True], closestDistQueue = [10], candidateSet = [(10, 0)],
      resultSet = [(10, 0)]\<rparr>
   = expand_candidates abs_dist loop_heap 0 (Suc 0) (Suc 0) (loop_trav (Suc 0))"
  apply (subst expand_candidates.simps)
  apply (simp add: loop_heap_simps visit_neighbor_def loop_trav_def abs_dist_def SIZE_MAX_ge1
      Let_def)
  done

text \<open>
  Claim C9. On the finite graph \<open>loop_index\<close>, whose nodes 1 and 2 are adjacent to each
  other, hold equal objects and carry the sentinel index, the traversal for the object 0
  with \<open>NN = 1\<close> and one attempt never returns: the nodes 1 and 2 are pushed onto the
  candidate queue in turn for ever.
\<close>

theorem kSearchElementsWithAttempts_diverges:
  "kSearchElementsWithAttempts abs_dist rnd loop_index 0 1 1 [] = None"
  by (simp add: kSearchElementsWithAttempts_def loop_index_def start_attempt_def
      getRandomEntryPoint_def loop_heap_simps abs_dist_def[of 0 10] loop_first_steps
      loop_diverges)

text \<open>Hence the insertion of node 3 into this graph never returns either.\<close>

lemma add_diverges: "add abs_dist rnd 3 loop_index = None"
proof -
  have h: "heap (removeAllFriends 3 loop_index) = loop_heap"
    by (auto simp: removeAllFriends_def loop_index_def loop_heap_def)
  have "removeAllFriends 3 loop_index = loop_index"
    using h by (simp add: removeAllFriends_def loop_index_def)
  moreover have "kSearchElementsWithAttempts abs_dist rnd loop_index 0 (Suc 0) (Suc 0) [] = None"
    by (simp add: kSearchElementsWithAttempts_def loop_index_def start_attempt_def
      getRandomEntryPoint_def loop_heap_simps abs_dist_def[of 0 10] loop_first_steps
      loop_diverges)
  ultimately show ?thesis
    by (simp add: add_def loop_index_def loop_heap_simps)
qed

section \<open>Nodes beyond the snapshot during the index-time traversal\<close>

lemma butlast_insort_key_nonempty:
  "xs \<noteq> [] \<Longrightarrow> butlast (insort_key f x xs) \<noteq> []"
proof -
  assume "xs \<noteq> []"
  then have "length (butlast (insort_key f x xs)) = length xs" by simp
  with \<open>xs \<noteq> []\<close> show ?thesis by (metis length_0_conv)
qed

lemma insort_key_nonempty: "insort_key f x xs \<noteq> []"
  by (cases xs) auto

lemma visit_neighbor_beyond:
  assumes "entryQty \<le> addIndex (h p)" and "resultSet t \<noteq> []"
  shows "\<exists>t'. visit_neighbor D h q nn entryQty p t = Inr t'
      \<and> visitedBitset t' = visitedBitset t
      \<and> candidateSet t' = insort_key fst (D q (data (h p)), p) (candidateSet t)
      \<and> resultSet t' \<noteq> []"
  using assms by (auto simp: visit_neighbor_def Let_def butlast_insort_key_nonempty insort_key_nonempty)

lemma visit_neighbor_length:
  "visit_neighbor D h q nn entryQty p t = Inr t' \<Longrightarrow> length (visitedBitset t') = length (visitedBitset t)"
  by (auto simp: visit_neighbor_def Let_def split: if_splits)

text \<open>The loop body writes no bit at or beyond the snapshot size, for any neighbour.\<close>

lemma visit_neighbor_writes_below_snapshot:
  assumes "visit_neighbor D h q nn entryQty p t = Inr t'" and "entryQty \<le> i"
  shows "visitedBitset t' ! i = visitedBitset t ! i"
proof (cases "addIndex (h p) < entryQty")
  case True
  then have "addIndex (h p) \<noteq> i" using assms(2) by simp
  then have "(visitedBitset t)[addIndex (h p) := True] ! i = visitedBitset t ! i"
    by (rule nth_list_update_neq)
  then show ?thesis
    using assms(1) True by (auto simp: visit_neighbor_def Let_def split: if_splits)
next
  case False
  then show ?thesis
    using assms(1) by (auto simp: visit_neighbor_def Let_def split: if_splits)
qed

text \<open>The result set is not empty when an attempt starts, and the loop body keeps it so.\<close>

lemma start_attempt_resultSet_nonempty:
  "start_attempt D st q entryQty r acc = Inr t \<Longrightarrow> resultSet t \<noteq> []"
  by (auto simp: start_attempt_def Let_def insort_key_nonempty split: option.splits)

lemma visit_neighbor_resultSet_nonempty:
  assumes "visit_neighbor D h q nn entryQty p t = Inr t'" and "resultSet t \<noteq> []"
  shows "resultSet t' \<noteq> []"
proof -
  have "butlast (insort_key fst (D q (data (h p)), p) (resultSet t)) \<noteq> []"
    using assms(2) by (rule butlast_insort_key_nonempty)
  moreover have "insort_key fst (D q (data (h p)), p) (resultSet t) \<noteq> []"
    by (rule insort_key_nonempty)
  ultimately show ?thesis
    using assms by (auto simp: visit_neighbor_def Let_def split: if_splits)
qed

lemma visit_neighbors_resultSet_nonempty:
  "visit_neighbors D h q nn entryQty ps t = Inr t' \<Longrightarrow> resultSet t \<noteq> []
     \<Longrightarrow> resultSet t' \<noteq> []"
proof (induction ps arbitrary: t)
  case Nil
  then show ?case by simp
next
  case (Cons p ps)
  then show ?case
    by (cases "visit_neighbor D h q nn entryQty p t")
      (auto dest: visit_neighbor_resultSet_nonempty)
qed

lemma visit_neighbors_length:
  "visit_neighbors D h q nn entryQty ps t = Inr t'
     \<Longrightarrow> length (visitedBitset t') = length (visitedBitset t)"
proof (induction ps arbitrary: t)
  case Nil
  then show ?case by simp
next
  case (Cons p ps)
  then show ?case
    by (cases "visit_neighbor D h q nn entryQty p t") (auto dest: visit_neighbor_length)
qed

text \<open>
  Claim C4. A neighbour whose index is the sentinel or is at least the snapshot size is
  evaluated whatever the bitset holds: its distance is computed and the node is pushed on
  the candidate queue, and the bitset is left exactly as it was (in particular it keeps
  its length). Meeting the same node again therefore evaluates and pushes it again. (The
  result set is never empty at this point of the traversal, since each attempt emplaces
  its entry point first.)
\<close>

theorem visit_neighbor_beyond_snapshot:
  assumes "entryQty \<le> SIZE_MAX"
    and "addIndex (h p) = SIZE_MAX \<or> entryQty \<le> addIndex (h p)"
    and "resultSet t \<noteq> []"
  shows "\<exists>t1 t2. visit_neighbor D h q nn entryQty p t = Inr t1
      \<and> visitedBitset t1 = visitedBitset t
      \<and> candidateSet t1 = insort_key fst (D q (data (h p)), p) (candidateSet t)
      \<and> visit_neighbor D h q nn entryQty p t1 = Inr t2
      \<and> visitedBitset t2 = visitedBitset t
      \<and> candidateSet t2 = insort_key fst (D q (data (h p)), p) (candidateSet t1)"
proof -
  have ge: "entryQty \<le> addIndex (h p)" using assms(1,2) by auto
  obtain t1 where t1: "visit_neighbor D h q nn entryQty p t = Inr t1"
      "visitedBitset t1 = visitedBitset t"
      "candidateSet t1 = insort_key fst (D q (data (h p)), p) (candidateSet t)"
      "resultSet t1 \<noteq> []"
    using visit_neighbor_beyond[of entryQty h p t D q nn] ge assms(3) by blast
  obtain t2 where t2: "visit_neighbor D h q nn entryQty p t1 = Inr t2"
      "visitedBitset t2 = visitedBitset t1"
      "candidateSet t2 = insort_key fst (D q (data (h p)), p) (candidateSet t1)"
    using visit_neighbor_beyond[of entryQty h p t1 D q nn] ge t1(4) by blast
  show ?thesis using t1 t2 by simp
qed

theorem visit_neighbor_beyond_snapshot_witness:
  "(1::nat) \<le> SIZE_MAX \<and> addIndex (loop_heap 1) = SIZE_MAX \<and> resultSet (loop_trav 1) \<noteq> []
   \<and> (\<exists>t1 t2. visit_neighbor abs_dist loop_heap 0 1 1 1 (loop_trav 1) = Inr t1
      \<and> visitedBitset t1 = [True]
      \<and> candidateSet t1 = [(0, 1), (0, 1)]
      \<and> visit_neighbor abs_dist loop_heap 0 1 1 1 t1 = Inr t2
      \<and> visitedBitset t2 = [True]
      \<and> candidateSet t2 = [(0, 1), (0, 1), (0, 1)])"
proof -
  have a: "(1::nat) \<le> SIZE_MAX" by (simp add: SIZE_MAX_def)
  have b: "addIndex (loop_heap 1) = SIZE_MAX" by (simp add: loop_heap_def)
  have c: "resultSet (loop_trav 1) \<noteq> []" by (simp add: loop_trav_def)
  have d: "abs_dist 0 (data (loop_heap (Suc 0))) = 0"
    by (simp add: loop_heap_def abs_dist_def)
  have b': "addIndex (loop_heap 1) = SIZE_MAX \<or> 1 \<le> addIndex (loop_heap 1)"
    using b by simp
  from visit_neighbor_beyond_snapshot[of 1 loop_heap 1 "loop_trav 1" abs_dist 0 1] a b' c
  obtain t1 t2 where t: "visit_neighbor abs_dist loop_heap 0 1 1 1 (loop_trav 1) = Inr t1"
    "visitedBitset t1 = visitedBitset (loop_trav 1)"
    "candidateSet t1 = insort_key fst (abs_dist 0 (data (loop_heap 1)), 1) (candidateSet (loop_trav 1))"
    "visit_neighbor abs_dist loop_heap 0 1 1 1 t1 = Inr t2"
    "visitedBitset t2 = visitedBitset (loop_trav 1)"
    "candidateSet t2 = insort_key fst (abs_dist 0 (data (loop_heap 1)), 1) (candidateSet t1)"
    by blast
  have "visitedBitset t1 = [True]" "candidateSet t1 = [(0, 1), (0, 1)]"
    using t(2,3) by (simp_all add: d loop_trav_def)
  moreover from this have "visitedBitset t2 = [True]" "candidateSet t2 = [(0, 1), (0, 1), (0, 1)]"
    using t(5,6) by (simp_all add: d loop_trav_def)
  ultimately show ?thesis using a b c t(1,4) by blast
qed

section \<open>Insertion into a graph with a single node\<close>

lemma expand_candidates_leaf:
  assumes "friends (h p) = []"
  shows "expand_candidates D h q nn eq
           \<lparr>visitedBitset = bs, closestDistQueue = [d], candidateSet = [(d, p)], resultSet = rs\<rparr>
         = Some (Inr \<lparr>visitedBitset = bs, closestDistQueue = [d], candidateSet = [], resultSet = rs\<rparr>)"
  apply (subst expand_candidates.simps)
  apply (simp add: assms)
  apply (subst expand_candidates.simps)
  apply simp
  done

lemma index_attempts_single_leaf:
  assumes "ElList st = [p]" and "friends (heap st p) = []" and "addIndex (heap st p) = 0"
  shows "index_attempts n D st q nn (Suc 0) rnd (bs, rs)
         = Some (Inr (if n = 0 then bs else bs[0 := True],
                      ((insort_key fst (D q (data (heap st p)), p)) ^^ n) rs))"
proof (induction n arbitrary: bs rs rnd)
  case 0
  then show ?case by simp
next
  case (Suc n)
  have s: "start_attempt D st q (Suc 0) (rnd 0) (bs, rs)
     = Inr \<lparr>visitedBitset = bs[0 := True], closestDistQueue = [D q (data (heap st p))],
            candidateSet = [(D q (data (heap st p)), p)],
            resultSet = insort_key fst (D q (data (heap st p)), p) rs\<rparr>"
    using assms(1,3) by (simp add: start_attempt_def getRandomEntryPoint_def Let_def)
  show ?case
    using assms(2) by (simp add: s expand_candidates_leaf Suc.IH funpow_swap1)
qed

text \<open>With the default parameters (two attempts) the single published node is the entry
  point twice and is emplaced twice: the new node is linked to it twice.\<close>

lemma add_one_index:
  "add abs_dist rnd (Suc 0) one_index
     = Some (Inr (addCriticalSection (Suc 0)
                    (link 0 (Suc 0) (link 0 (Suc 0) (removeAllFriends (Suc 0) one_index)))))"
proof -
  let ?st = "removeAllFriends (Suc 0) one_index"
  have a: "ElList ?st = [0]" "friends (heap ?st 0) = []" "addIndex (heap ?st 0) = 0"
    "data (heap ?st (Suc 0)) = 0" "data (heap ?st 0) = 10" "NN ?st = 5" "initIndexAttempts ?st = 2"
    by (simp_all add: removeAllFriends_def one_index_def)
  have "index_attempts (Suc (Suc 0)) abs_dist ?st 0 5 (Suc 0) rnd ([False], [])
           = Some (Inr ([True], [(10, 0), (10, 0)]))"
    by (simp add: index_attempts_single_leaf[OF a(1,2,3)] a abs_dist_def
          del: index_attempts.simps)
  then have k: "kSearchElementsWithAttempts abs_dist rnd ?st 0 5 2 [] = Some (Inr [(10, 0), (10, 0)])"
    by (simp add: kSearchElementsWithAttempts_def a numeral_2_eq_2 del: index_attempts.simps)
  have l: "link_results [(10::int, 0), (10, 0)] (Suc 0) ?st = link 0 (Suc 0) (link 0 (Suc 0) ?st)"
    by (simp add: link_results.simps[of "[(10, 0), (10, 0)]"] link_results.simps[of "[(10, 0)]"]
        link_results.simps[of "[]"])
  show ?thesis
    using k l by (simp add: add_def Let_def a)
qed

lemma add_one_index_state:
  "ElList (addCriticalSection (Suc 0)
             (link 0 (Suc 0) (link 0 (Suc 0) (removeAllFriends (Suc 0) one_index)))) = [0, 1]"
  "friends (heap (addCriticalSection (Suc 0)
             (link 0 (Suc 0) (link 0 (Suc 0) (removeAllFriends (Suc 0) one_index)))) (Suc 0)) = [0, 0]"
  "friends (heap (addCriticalSection (Suc 0)
             (link 0 (Suc 0) (link 0 (Suc 0) (removeAllFriends (Suc 0) one_index)))) 0) = [1, 1]"
  by (simp_all add: addCriticalSection_def link_def addFriend_def removeAllFriends_def
      one_index_def)

section \<open>Linking before publication\<close>

lemma link_ElList [simp]: "ElList (link a b st) = ElList st"
  by (simp add: link_def addFriend_def)

lemma link_friends_mono: "p \<in> set (friends (heap st q)) \<Longrightarrow> p \<in> set (friends (heap (link a b st) q))"
  by (auto simp: link_def addFriend_def)

lemma link_makes_friends:
  "b \<in> set (friends (heap (link a b st) a)) \<and> a \<in> set (friends (heap (link a b st) b))"
  by (simp add: link_def addFriend_def)

lemma addCriticalSection_friends [simp]:
  "friends (heap (addCriticalSection x st) q) = friends (heap st q)"
  by (simp add: addCriticalSection_def)

lemma addCriticalSection_ElList [simp]:
  "ElList (addCriticalSection x st) = ElList st @ [x]"
  by (simp add: addCriticalSection_def)

lemma add_step_invariant:
  assumes "(add_step x)\<^sup>*\<^sup>* (rs0, False, st0) c"
  shows "\<exists>done. rs0 = fst c @ done \<and> links_made x done (snd (snd c))
           \<and> (if fst (snd c) then fst c = [] \<and> ElList (snd (snd c)) = ElList st0 @ [x]
               else ElList (snd (snd c)) = ElList st0)"
  using assms
proof (induction rule: rtranclp_induct)
  case base
  show ?case by (simp add: links_made_def)
next
  case (step c c')
  from step.hyps(2) show ?case
  proof (cases rule: add_step.cases)
    case (link_top rs st)
    from step.IH link_top(1) obtain dn where dn: "rs0 = rs @ dn" "links_made x dn st"
      "ElList st = ElList st0" by auto
    have "rs = butlast rs @ [last rs]" using link_top(3) by simp
    then have "rs0 = butlast rs @ (last rs # dn)" using dn(1) by (metis append.assoc append_Cons append_Nil)
    moreover have "links_made x dn (link (snd (last rs)) x st)"
      using dn(2) unfolding links_made_def list_all_iff
      by (blast intro: link_friends_mono)
    then have "links_made x (last rs # dn) (link (snd (last rs)) x st)"
      using link_makes_friends[of x "snd (last rs)" st]
      by (simp add: links_made_def)
    ultimately show ?thesis using link_top(2) dn(3)
      by (intro exI[of _ "last rs # dn"]) simp
  next
    case (publish st)
    from step.IH publish(1) obtain dn where dn: "rs0 = dn" "links_made x dn st"
      "ElList st = ElList st0" by auto
    then show ?thesis using publish(2)
      by (intro exI[of _ dn]) (simp add: links_made_def)
  qed
qed

lemma add_step_invariant3:
  assumes "(add_step x)\<^sup>*\<^sup>* (rs0, False, st0) (rs, published, st)"
  shows "\<exists>done. rs0 = rs @ done \<and> links_made x done st
           \<and> (if published then rs = [] \<and> ElList st = ElList st0 @ [x]
               else ElList st = ElList st0)"
  using add_step_invariant[OF assms] by (auto split: if_splits)

lemma link_results_steps:
  "(add_step x)\<^sup>*\<^sup>* (rs, False, st) ([], False, link_results rs x st)"
proof (induction rs x st rule: link_results.induct)
  case (1 rs x st)
  show ?case
  proof (cases "rs = []")
    case True
    then show ?thesis by (subst link_results.simps) simp
  next
    case False
    have "add_step x (rs, False, st) (butlast rs, False, link (snd (last rs)) x st)"
      using False by (rule add_step.link_top)
    moreover have "(add_step x)\<^sup>*\<^sup>* (butlast rs, False, link (snd (last rs)) x st)
         ([], False, link_results (butlast rs) x (link (snd (last rs)) x st))"
      using 1 False by simp
    ultimately have "(add_step x)\<^sup>*\<^sup>* (rs, False, st)
         ([], False, link_results (butlast rs) x (link (snd (last rs)) x st))"
      by (rule converse_rtranclp_into_rtranclp)
    then show ?thesis using False
      by (subst link_results.simps) simp
  qed
qed

text \<open>
  Claim C8. Whenever \<^verbatim>\<open>add\<close> returns for a node that was not yet in the graph, its writes
  to the graph are a run of the steps above that starts with the traversal's result set
  and ends with the node appended; and in every configuration of such a run in which the
  node is in the list of nodes, the result set has been emptied and every link between
  the node and an entry of the result set is present in both directions.
\<close>

theorem add_publishes_after_linking:
  assumes "newElement \<notin> set (ElList st0)"
    and "add IndexTimeDistance rnd newElement st0 = Some (Inr st')"
  shows "\<exists>result.
      kSearchElementsWithAttempts IndexTimeDistance rnd (removeAllFriends newElement st0)
          (data (heap st0 newElement)) (NN st0) (initIndexAttempts st0) [] = Some (Inr result)
    \<and> (add_step newElement)\<^sup>*\<^sup>* (result, False, removeAllFriends newElement st0) ([], True, st')
    \<and> (\<forall>rs published st.
          (add_step newElement)\<^sup>*\<^sup>* (result, False, removeAllFriends newElement st0) (rs, published, st)
          \<longrightarrow> newElement \<in> set (ElList st)
          \<longrightarrow> rs = [] \<and> published \<and> links_made newElement result st)"
proof -
  let ?st = "removeAllFriends newElement st0"
  have el: "ElList ?st = ElList st0" by (simp add: removeAllFriends_def)
  have sel: "data (heap ?st newElement) = data (heap st0 newElement)" "NN ?st = NN st0"
    "initIndexAttempts ?st = initIndexAttempts st0"
    by (simp_all add: removeAllFriends_def)
  have add_eq: "add IndexTimeDistance rnd newElement st0 =
     (if ElList ?st = [] then Some (Inl (Bug_Empty_List, ?st))
      else (case kSearchElementsWithAttempts IndexTimeDistance rnd ?st
                      (data (heap st0 newElement)) (NN st0) (initIndexAttempts st0) [] of
                 None \<Rightarrow> None
               | Some (Inl e) \<Rightarrow> Some (Inl (e, ?st))
               | Some (Inr result) \<Rightarrow>
                   Some (Inr (addCriticalSection newElement
                                (link_results result newElement ?st)))))"
    by (simp add: add_def Let_def sel)
  have ne: "ElList ?st \<noteq> []"
    using assms(2) unfolding add_eq by (auto split: if_splits)
  obtain result where r:
    "kSearchElementsWithAttempts IndexTimeDistance rnd ?st
          (data (heap st0 newElement)) (NN st0) (initIndexAttempts st0) [] = Some (Inr result)"
    "st' = addCriticalSection newElement (link_results result newElement ?st)"
  proof (cases "kSearchElementsWithAttempts IndexTimeDistance rnd ?st
          (data (heap st0 newElement)) (NN st0) (initIndexAttempts st0) []")
    case None
    then show ?thesis using assms(2) ne unfolding add_eq by simp
  next
    case (Some a)
    show ?thesis
    proof (cases a)
      case (Inl e)
      then show ?thesis using assms(2) ne Some unfolding add_eq by simp
    next
      case (Inr result)
      then show ?thesis using assms(2) ne Some that unfolding add_eq by simp
    qed
  qed
  have "add_step newElement ([], False, link_results result newElement ?st) ([], True, st')"
    unfolding r(2) by (rule add_step.publish)
  with link_results_steps[of newElement result ?st]
  have run: "(add_step newElement)\<^sup>*\<^sup>* (result, False, ?st) ([], True, st')"
    by (rule rtranclp.rtrancl_into_rtrancl)
  have inv: "rs = [] \<and> published \<and> links_made newElement result st"
    if "(add_step newElement)\<^sup>*\<^sup>* (result, False, ?st) (rs, published, st)"
      and "newElement \<in> set (ElList st)" for rs published st
  proof -
    from add_step_invariant3[OF that(1)] obtain dn where dn: "result = rs @ dn"
      "links_made newElement dn st"
      "if published then rs = [] \<and> ElList st = ElList ?st @ [newElement] else ElList st = ElList ?st"
      by auto
    have "published" using dn(3) that(2) assms(1) el by (auto split: if_splits)
    then show ?thesis using dn by simp
  qed
  show ?thesis using r(1) run inv by blast
qed

theorem add_publishes_after_linking_witness:
  "Suc 0 \<notin> set (ElList one_index)
   \<and> add abs_dist (\<lambda>_. 0) (Suc 0) one_index
       = Some (Inr (addCriticalSection (Suc 0)
                      (link 0 (Suc 0) (link 0 (Suc 0) (removeAllFriends (Suc 0) one_index)))))
   \<and> (\<exists>result :: int ev list.
        (add_step (Suc 0))\<^sup>*\<^sup>* (result, False, removeAllFriends (Suc 0) one_index)
          ([], True, addCriticalSection (Suc 0)
                      (link 0 (Suc 0) (link 0 (Suc 0) (removeAllFriends (Suc 0) one_index)))))"
proof -
  have f: "Suc 0 \<notin> set (ElList one_index)" by (simp add: one_index_def)
  from add_publishes_after_linking[OF f add_one_index[of "\<lambda>_. 0"]] f add_one_index[of "\<lambda>_. 0"]
  show ?thesis by blast
qed

section \<open>The degree of an inserted node\<close>

text \<open>
  The number of friends that \<^verbatim>\<open>add\<close> gives to the inserted node, on the graphs of a
  sequential build. The lemmas on the traversal use of \<^verbatim>\<open>candidateSet\<close> and \<^verbatim>\<open>resultSet\<close> only
  their sizes and their members, and of \<^verbatim>\<open>closestDistQueue\<close> that its top is its largest
  element: properties that a priority queue has whatever order it gives to entries of equal
  distance.
\<close>

lemma graph_ok_index: "graph_ok h els \<Longrightarrow> p \<in> set els \<Longrightarrow> addIndex (h p) < length els"
proof -
  assume g: "graph_ok h els" and p: "p \<in> set els"
  then have "addIndex (h p) \<in> set (map (\<lambda>p. addIndex (h p)) els)" by simp
  moreover have "map (\<lambda>p. addIndex (h p)) els = [0..<length els]"
    using g by (simp add: graph_ok_def)
  ultimately have "addIndex (h p) \<in> set [0..<length els]" by (simp only:)
  then show ?thesis by simp
qed

lemma graph_ok_inj:
  assumes "graph_ok h els" "p \<in> set els" "p' \<in> set els" "addIndex (h p) = addIndex (h p')"
  shows "p = p'"
proof -
  have "map (\<lambda>p. addIndex (h p)) els = [0..<length els]"
    using assms(1) by (simp add: graph_ok_def)
  then have "distinct (map (\<lambda>p. addIndex (h p)) els)" by (simp only: distinct_upt)
  then have "inj_on (\<lambda>p. addIndex (h p)) (set els)" by (simp add: distinct_map)
  then show ?thesis using assms(2,3,4) by (auto dest: inj_onD)
qed

lemma graph_ok_friends: "graph_ok h els \<Longrightarrow> p \<in> set els \<Longrightarrow> set (friends (h p)) \<subseteq> set els"
  by (auto simp: graph_ok_def list_all_iff)

lemma count_list_flip:
  "i < length bs \<Longrightarrow> \<not> bs ! i \<Longrightarrow>
     Suc (count_list (bs[i := True]) False) = count_list bs False
     \<and> count_list (bs[i := True]) True = Suc (count_list bs True)"
proof (induction bs arbitrary: i)
  case Nil
  then show ?case by simp
next
  case (Cons b bs)
  then show ?case by (cases i) auto
qed

text \<open>The three outcomes of the loop body for a neighbour below the snapshot.\<close>

lemma visit_neighbor_published:
  assumes "addIndex (h p) < entryQty" and "resultSet t \<noteq> []"
  shows "(visitedBitset t ! addIndex (h p) \<and> visit_neighbor D h q nn entryQty p t = Inr t)
    \<or> (\<not> visitedBitset t ! addIndex (h p)
       \<and> (\<exists>rs. visit_neighbor D h q nn entryQty p t
            = Inr \<lparr>visitedBitset = (visitedBitset t)[addIndex (h p) := True],
                   closestDistQueue =
                     (if nn \<le> length (closestDistQueue t)
                      then butlast (insort (D q (data (h p))) (closestDistQueue t))
                      else insort (D q (data (h p))) (closestDistQueue t)),
                   candidateSet = insort_key fst (D q (data (h p)), p) (candidateSet t),
                   resultSet = rs\<rparr>
          \<and> (rs = resultSet t \<and> nn \<le> length (resultSet t)
             \<or> rs = insort_key fst (D q (data (h p)), p) (resultSet t) \<and> length (resultSet t) < nn
             \<or> rs = butlast (insort_key fst (D q (data (h p)), p) (resultSet t))
                \<and> nn \<le> length (resultSet t))))"
  using assms by (auto simp: visit_neighbor_def Let_def)

lemma snd_set_butlast: "snd ` set (butlast xs) \<subseteq> snd ` set xs"
  by (auto dest: in_set_butlastD)

lemma visit_neighbor_term:
  assumes ok: "graph_ok h els" and p: "p \<in> set els" and inv: "trav_inv els t"
  shows "\<exists>t'. visit_neighbor D h q nn (length els) p t = Inr t' \<and> trav_inv els t'
           \<and> trav_measure t' \<le> trav_measure t
           \<and> length (resultSet t) \<le> length (resultSet t')"
proof -
  have i: "addIndex (h p) < length els" using ok p by (rule graph_ok_index)
  have ne: "resultSet t \<noteq> []" "closestDistQueue t \<noteq> []"
    and len: "length (visitedBitset t) = length els"
    and sub: "snd ` set (candidateSet t) \<subseteq> set els" "snd ` set (resultSet t) \<subseteq> set els"
    using inv by (simp_all add: trav_inv_def)
  let ?d = "D q (data (h p))"
  from visit_neighbor_published[where h=h and p=p and t=t and entryQty="length els"
        and D=D and q=q and nn=nn, OF i ne(1)]
  consider (skip) "visit_neighbor D h q nn (length els) p t = Inr t"
    | (eval) rs where "\<not> visitedBitset t ! addIndex (h p)"
        "visit_neighbor D h q nn (length els) p t
            = Inr \<lparr>visitedBitset = (visitedBitset t)[addIndex (h p) := True],
                   closestDistQueue =
                     (if nn \<le> length (closestDistQueue t)
                      then butlast (insort ?d (closestDistQueue t))
                      else insort ?d (closestDistQueue t)),
                   candidateSet = insort_key fst (?d, p) (candidateSet t),
                   resultSet = rs\<rparr>"
        "rs = resultSet t
             \<or> rs = insort_key fst (?d, p) (resultSet t)
             \<or> rs = butlast (insort_key fst (?d, p) (resultSet t))"
    by blast
  then show ?thesis
  proof cases
    case skip
    then show ?thesis using inv by simp
  next
    case (eval rs)
    have rs_ne: "rs \<noteq> []"
      using eval(3) ne(1)
        butlast_insort_key_nonempty[OF ne(1), of fst "(?d, p)"]
        insort_key_nonempty[of fst "(?d, p)" "resultSet t"]
      by auto
    have rs_sub: "snd ` set rs \<subseteq> set els"
    proof -
      have "snd ` set (insort_key fst (?d, p) (resultSet t)) \<subseteq> set els"
        using sub(2) p by (auto simp: set_insort_key)
      moreover have "snd ` set (butlast (insort_key fst (?d, p) (resultSet t)))
            \<subseteq> snd ` set (insort_key fst (?d, p) (resultSet t))"
        by (rule snd_set_butlast)
      ultimately show ?thesis using eval(3) sub(2) by blast
    qed
    have rs_len: "length (resultSet t) \<le> length rs"
      using eval(3) by auto
    have cq_ne: "(if nn \<le> length (closestDistQueue t)
                      then butlast (insort ?d (closestDistQueue t))
                      else insort ?d (closestDistQueue t)) \<noteq> []"
      using ne(2) by (simp add: butlast_insort_key_nonempty insort_key_nonempty)
    have cand_sub: "snd ` set (insort_key fst (?d, p) (candidateSet t)) \<subseteq> set els"
      using sub(1) p by (auto simp: set_insort_key)
    have cnt: "Suc (count_list ((visitedBitset t)[addIndex (h p) := True]) False)
                 = count_list (visitedBitset t) False"
      using count_list_flip[of "addIndex (h p)" "visitedBitset t"] i len eval(1) by simp
    show ?thesis
      unfolding eval(2)
      using rs_ne rs_sub rs_len cq_ne cand_sub cnt len
      by (simp add: trav_inv_def trav_measure_def)
  qed
qed

lemma visit_neighbors_term:
  assumes ok: "graph_ok h els" and ps: "set ps \<subseteq> set els" and inv: "trav_inv els t"
  shows "\<exists>t'. visit_neighbors D h q nn (length els) ps t = Inr t' \<and> trav_inv els t'
           \<and> trav_measure t' \<le> trav_measure t
           \<and> length (resultSet t) \<le> length (resultSet t')"
  using ps inv
proof (induction ps arbitrary: t)
  case Nil
  then show ?case by simp
next
  case (Cons p ps)
  from Cons.prems(1) have p: "p \<in> set els" and ps: "set ps \<subseteq> set els" by simp_all
  from visit_neighbor_term[OF ok p Cons.prems(2), of D q nn]
  obtain t1 where t1: "visit_neighbor D h q nn (length els) p t = Inr t1" "trav_inv els t1"
    "trav_measure t1 \<le> trav_measure t" "length (resultSet t) \<le> length (resultSet t1)"
    by blast
  from Cons.IH[OF ps t1(2)]
  obtain t' where t': "visit_neighbors D h q nn (length els) ps t1 = Inr t'" "trav_inv els t'"
    "trav_measure t' \<le> trav_measure t1" "length (resultSet t1) \<le> length (resultSet t')"
    by blast
  show ?case using t1 t' by simp
qed

text \<open>The rule for the loop: an invariant that implies \<open>trav_inv\<close> and is kept by every
  iteration holds when the loop ends, and the loop does end.\<close>

lemma expand_candidates_total:
  assumes ok: "graph_ok h els"
    and inv: "\<And>t. I t \<Longrightarrow> trav_inv els t"
    and step: "\<And>t c rest t'. I t \<Longrightarrow> candidateSet t = c # rest
        \<Longrightarrow> \<not> last (closestDistQueue t) < fst c
        \<Longrightarrow> visit_neighbors D h q nn (length els) (friends (h (snd c)))
              (t\<lparr>candidateSet := rest\<rparr>) = Inr t'
        \<Longrightarrow> I t'"
    and I: "I t"
  shows "\<exists>t'. expand_candidates D h q nn (length els) t = Some (Inr t') \<and> I t'
           \<and> (candidateSet t' = []
               \<or> last (closestDistQueue t') < fst (hd (candidateSet t')))"
  using I
proof (induction t rule: measure_induct_rule[of trav_measure])
  case (less t)
  note ti = inv[OF less.prems]
  show ?case
  proof (cases "candidateSet t")
    case Nil
    then show ?thesis using less.prems
      by (subst expand_candidates.simps) simp
  next
    case (Cons c rest)
    have cq: "closestDistQueue t \<noteq> []" using ti by (simp add: trav_inv_def)
    show ?thesis
    proof (cases "last (closestDistQueue t) < fst c")
      case True
      then show ?thesis using less.prems Cons cq
        by (subst expand_candidates.simps) simp
    next
      case False
      let ?t0 = "t\<lparr>candidateSet := rest\<rparr>"
      have c: "snd c \<in> set els" using ti Cons by (auto simp: trav_inv_def)
      have fr: "set (friends (h (snd c))) \<subseteq> set els" using ok c by (rule graph_ok_friends)
      have t0: "trav_inv els ?t0" using ti Cons by (auto simp: trav_inv_def)
      from visit_neighbors_term[OF ok fr t0, of D q nn]
      obtain t' where t': "visit_neighbors D h q nn (length els) (friends (h (snd c))) ?t0 = Inr t'"
        "trav_measure t' \<le> trav_measure ?t0"
        by blast
      have "trav_measure ?t0 < trav_measure t" using Cons by (simp add: trav_measure_def)
      then have m: "trav_measure t' < trav_measure t" using t'(2) by simp
      have "I t'" using step[OF less.prems Cons False t'(1)] .
      from less.IH[OF m this]
      obtain t'' where "expand_candidates D h q nn (length els) t' = Some (Inr t'')" "I t''"
        "candidateSet t'' = [] \<or> last (closestDistQueue t'') < fst (hd (candidateSet t''))"
        by blast
      then show ?thesis using Cons cq False t'(1)
        by (subst expand_candidates.simps) simp
    qed
  qed
qed

lemma grows_refl: "grows h els t t"
  by (simp add: grows_def)

lemma grows_trans: "grows h els t t1 \<Longrightarrow> grows h els t1 t2 \<Longrightarrow> grows h els t t2"
  unfolding grows_def by blast

lemma sorted_butlast_insort: "sorted xs \<Longrightarrow> sorted (butlast (insort x xs))"
  by (simp add: sorted_butlast sorted_insort)

lemma visit_neighbor_first:
  assumes ok: "graph_ok h els" and p: "p \<in> set els" and inv: "trav_inv els t"
    and cnt: "count_inv h nn t"
    and eq: "visit_neighbor D h q nn (length els) p t = Inr t'"
  shows "count_inv h nn t' \<and> grows h els t t' \<and> visitedBitset t' ! addIndex (h p)"
proof -
  have i: "addIndex (h p) < length els" using ok p by (rule graph_ok_index)
  have ne: "resultSet t \<noteq> []" and len: "length (visitedBitset t) = length els"
    using inv by (simp_all add: trav_inv_def)
  let ?d = "D q (data (h p))"
  let ?bs = "visitedBitset t"
  let ?i = "addIndex (h p)"
  let ?m = "count_list ?bs True"
  let ?cq = "if nn \<le> length (closestDistQueue t)
                      then butlast (insort ?d (closestDistQueue t))
                      else insort ?d (closestDistQueue t)"
  from visit_neighbor_published[where h=h and p=p and t=t and entryQty="length els"
        and D=D and q=q and nn=nn, OF i ne]
  consider (skip) "?bs ! ?i" "visit_neighbor D h q nn (length els) p t = Inr t"
    | (eval) rs where "\<not> ?bs ! ?i"
        "visit_neighbor D h q nn (length els) p t
            = Inr \<lparr>visitedBitset = ?bs[?i := True], closestDistQueue = ?cq,
                   candidateSet = insort_key fst (?d, p) (candidateSet t),
                   resultSet = rs\<rparr>"
        "rs = resultSet t \<and> nn \<le> length (resultSet t)
             \<or> rs = insort_key fst (?d, p) (resultSet t) \<and> length (resultSet t) < nn
             \<or> rs = butlast (insort_key fst (?d, p) (resultSet t)) \<and> nn \<le> length (resultSet t)"
    by blast
  then show ?thesis
  proof cases
    case skip
    then have "t' = t" using eq by simp
    then show ?thesis using cnt skip(1) by (simp add: grows_refl)
  next
    case (eval rs)
    have t': "t' = \<lparr>visitedBitset = ?bs[?i := True], closestDistQueue = ?cq,
                   candidateSet = insort_key fst (?d, p) (candidateSet t),
                   resultSet = rs\<rparr>"
      using eq eval(2) by simp
    have il: "?i < length ?bs" using i len by simp
    have m': "count_list (?bs[?i := True]) True = Suc ?m"
      using count_list_flip[OF il eval(1)] by simp
    have nth: "?bs[?i := True] ! j = (j = ?i \<or> ?bs ! j)" for j
      using il by (auto simp: nth_list_update)
    from cnt have c1: "\<forall>e\<in>set (candidateSet t). ?bs ! addIndex (h (snd e))"
      and c2: "sorted (closestDistQueue t)"
      and c3: "?m \<le> nn \<longrightarrow> fst ` set (candidateSet t) \<subseteq> set (closestDistQueue t)"
      and c4: "length (closestDistQueue t) \<le> ?m"
      and c5: "min ?m nn \<le> length (resultSet t)"
      by (simp_all add: count_inv_def)
    have n1: "\<forall>e\<in>set (insort_key fst (?d, p) (candidateSet t)). ?bs[?i := True] ! addIndex (h (snd e))"
      using c1 by (auto simp: set_insort_key nth)
    have n2: "sorted ?cq" using c2 by (simp add: sorted_butlast_insort sorted_insort)
    have n3: "Suc ?m \<le> nn \<longrightarrow> fst ` set (insort_key fst (?d, p) (candidateSet t)) \<subseteq> set ?cq"
    proof
      assume a: "Suc ?m \<le> nn"
      then have "\<not> nn \<le> length (closestDistQueue t)" using c4 by simp
      moreover have "fst ` set (candidateSet t) \<subseteq> set (closestDistQueue t)" using c3 a by simp
      ultimately show "fst ` set (insort_key fst (?d, p) (candidateSet t)) \<subseteq> set ?cq"
        by (auto simp: set_insort_key)
    qed
    have n4: "length ?cq \<le> Suc ?m" using c4 by simp
    have n5: "min (Suc ?m) nn \<le> length rs" using c5 eval(3) by auto
    have cinv: "count_inv h nn t'"
      unfolding t' count_inv_def using n1 n2 n3 n4 n5 by (simp add: m')
    have g1: "\<forall>p'\<in>set els. ?bs ! addIndex (h p') \<longrightarrow> ?bs[?i := True] ! addIndex (h p')"
      by (simp add: nth)
    have g2: "set (candidateSet t) \<subseteq> set (insort_key fst (?d, p) (candidateSet t))"
      by (auto simp: set_insort_key)
    have g3: "\<forall>p'\<in>set els. ?bs[?i := True] ! addIndex (h p') \<longrightarrow>
           ?bs ! addIndex (h p') \<or> p' \<in> snd ` set (insort_key fst (?d, p) (candidateSet t))"
    proof (intro ballI impI)
      fix p' assume p': "p' \<in> set els" and s: "?bs[?i := True] ! addIndex (h p')"
      show "?bs ! addIndex (h p') \<or> p' \<in> snd ` set (insort_key fst (?d, p) (candidateSet t))"
      proof (cases "addIndex (h p') = ?i")
        case True
        then have "p' = p" using graph_ok_inj[OF ok p' p] by simp
        then show ?thesis by (force simp: set_insort_key)
      next
        case False
        then show ?thesis using s by (simp add: nth)
      qed
    qed
    have "grows h els t t'" unfolding t' grows_def using g1 g2 g3 by simp
    moreover have "visitedBitset t' ! ?i" unfolding t' by (simp add: nth)
    ultimately show ?thesis using cinv by simp
  qed
qed

lemma visit_neighbors_first:
  assumes ok: "graph_ok h els" and ps: "set ps \<subseteq> set els" and inv: "trav_inv els t"
    and cnt: "count_inv h nn t"
    and eq: "visit_neighbors D h q nn (length els) ps t = Inr t'"
  shows "count_inv h nn t' \<and> grows h els t t'
           \<and> (\<forall>p\<in>set ps. visitedBitset t' ! addIndex (h p))"
  using ps inv cnt eq
proof (induction ps arbitrary: t)
  case Nil
  then show ?case by (simp add: grows_refl)
next
  case (Cons p ps)
  from Cons.prems(1) have p: "p \<in> set els" and ps: "set ps \<subseteq> set els" by simp_all
  from visit_neighbor_term[OF ok p Cons.prems(2), of D q nn]
  obtain t1 where t1: "visit_neighbor D h q nn (length els) p t = Inr t1" "trav_inv els t1"
    by blast
  from visit_neighbor_first[OF ok p Cons.prems(2,3) t1(1)]
  have f1: "count_inv h nn t1" "grows h els t t1" "visitedBitset t1 ! addIndex (h p)"
    by simp_all
  have eq': "visit_neighbors D h q nn (length els) ps t1 = Inr t'"
    using Cons.prems(4) t1(1) by simp
  from Cons.IH[OF ps t1(2) f1(1) eq']
  have f2: "count_inv h nn t'" "grows h els t1 t'"
    "\<forall>p\<in>set ps. visitedBitset t' ! addIndex (h p)"
    by simp_all
  have "visitedBitset t' ! addIndex (h p)"
    using f1(3) f2(2) p by (simp add: grows_def)
  then show ?case using f2 grows_trans[OF f1(2) f2(2)] by simp
qed

lemma graph_ok_nth: "graph_ok h els \<Longrightarrow> i < length els \<Longrightarrow> addIndex (h (els ! i)) = i"
proof -
  assume g: "graph_ok h els" and i: "i < length els"
  have "map (\<lambda>p. addIndex (h p)) els ! i = [0..<length els] ! i"
    using g by (simp add: graph_ok_def)
  then show ?thesis using i by simp
qed

lemma count_list_all_True: "(\<forall>i<length bs. bs ! i) \<Longrightarrow> count_list bs True = length bs"
proof (induction bs)
  case Nil
  then show ?case by simp
next
  case (Cons b bs)
  from Cons.prems have "b" by (auto dest: spec[of _ 0])
  moreover have "\<forall>i<length bs. bs ! i"
  proof (intro allI impI)
    fix i assume "i < length bs"
    then have "(b # bs) ! Suc i" using Cons.prems by (auto dest: spec[of _ "Suc i"])
    then show "bs ! i" by simp
  qed
  ultimately show ?case using Cons.IH by simp
qed

lemma sorted_le_last: "sorted xs \<Longrightarrow> x \<in> set xs \<Longrightarrow> x \<le> last xs"
proof (induction xs)
  case Nil
  then show ?case by simp
next
  case (Cons a xs)
  then show ?case by (cases xs) auto
qed

lemma first_inv_step:
  assumes ok: "graph_ok h els" and s: "s \<in> set els" and I: "first_inv h els nn s t"
    and c: "candidateSet t = c # rest"
    and eq: "visit_neighbors D h q nn (length els) (friends (h (snd c)))
                (t\<lparr>candidateSet := rest\<rparr>) = Inr t'"
  shows "first_inv h els nn s t'"
proof -
  let ?t0 = "t\<lparr>candidateSet := rest\<rparr>"
  from I have ti: "trav_inv els t" and ci: "count_inv h nn t" and cl: "closed_inv h els t"
    and sb: "visitedBitset t ! addIndex (h s)"
    by (simp_all add: first_inv_def)
  have cin: "snd c \<in> set els" using ti c by (auto simp: trav_inv_def)
  have fr: "set (friends (h (snd c))) \<subseteq> set els" using ok cin by (rule graph_ok_friends)
  have t0: "trav_inv els ?t0" using ti c by (auto simp: trav_inv_def)
  have c0: "count_inv h nn ?t0" using ci c by (auto simp: count_inv_def)
  from visit_neighbors_term[OF ok fr t0, of D q nn] eq
  have ti': "trav_inv els t'" by auto
  from visit_neighbors_first[OF ok fr t0 c0 eq]
  have ci': "count_inv h nn t'" and g: "grows h els ?t0 t'"
    and fm: "\<forall>f\<in>set (friends (h (snd c))). visitedBitset t' ! addIndex (h f)"
    by simp_all
  from g have mono: "\<And>p. p \<in> set els \<Longrightarrow> visitedBitset t ! addIndex (h p)
                        \<Longrightarrow> visitedBitset t' ! addIndex (h p)"
    and sub: "set rest \<subseteq> set (candidateSet t')"
    and new: "\<And>p. p \<in> set els \<Longrightarrow> visitedBitset t' ! addIndex (h p)
                \<Longrightarrow> visitedBitset t ! addIndex (h p) \<or> p \<in> snd ` set (candidateSet t')"
    by (simp_all add: grows_def)
  have cl': "closed_inv h els t'"
    unfolding closed_inv_def
  proof (intro ballI impI)
    fix p assume p: "p \<in> set els" and m: "visitedBitset t' ! addIndex (h p)"
    show "p \<in> snd ` set (candidateSet t')
           \<or> (\<forall>f\<in>set (friends (h p)). visitedBitset t' ! addIndex (h f))"
    proof (cases "p \<in> snd ` set (candidateSet t')")
      case True
      then show ?thesis by simp
    next
      case False
      then have old: "visitedBitset t ! addIndex (h p)" using new[OF p m] by simp
      have "p \<notin> snd ` set rest" using False sub by auto
      then consider "p = snd c"
        | "\<forall>f\<in>set (friends (h p)). visitedBitset t ! addIndex (h f)"
        using cl old p c by (auto simp: closed_inv_def)
      then show ?thesis
      proof cases
        case 1
        then show ?thesis using fm by simp
      next
        case 2
        have "set (friends (h p)) \<subseteq> set els" using ok p by (rule graph_ok_friends)
        then show ?thesis using 2 mono by blast
      qed
    qed
  qed
  show ?thesis using ti' ci' cl' mono[OF s sb] by (simp add: first_inv_def)
qed

lemma first_inv_exit:
  assumes ok: "graph_ok h els" and conn: "graph_connected h els" and s: "s \<in> set els"
    and I: "first_inv h els nn s t"
    and ex: "candidateSet t = [] \<or> last (closestDistQueue t) < fst (hd (candidateSet t))"
  shows "min nn (length els) \<le> length (resultSet t)"
proof -
  let ?bs = "visitedBitset t"
  let ?m = "count_list ?bs True"
  from I have ti: "trav_inv els t" and ci: "count_inv h nn t" and cl: "closed_inv h els t"
    and sb: "?bs ! addIndex (h s)"
    by (simp_all add: first_inv_def)
  have res: "min ?m nn \<le> length (resultSet t)" using ci by (simp add: count_inv_def)
  show ?thesis
  proof (cases "candidateSet t")
    case Nil
    have marked: "?bs ! addIndex (h q)" if "q \<in> set els" for q
    proof -
      have "(s, q) \<in> {(a, b). a \<in> set els \<and> b \<in> set (friends (h a))}\<^sup>*"
        using conn s that by (simp add: graph_connected_def)
      then show ?thesis
      proof (induction rule: rtrancl_induct)
        case base
        show ?case by (rule sb)
      next
        case (step y z)
        then have y: "y \<in> set els" and z: "z \<in> set (friends (h y))" by simp_all
        from cl y step.IH Nil have "\<forall>f\<in>set (friends (h y)). ?bs ! addIndex (h f)"
          by (simp add: closed_inv_def)
        then show ?case using z by simp
      qed
    qed
    have "\<forall>i<length ?bs. ?bs ! i"
    proof (intro allI impI)
      fix i assume "i < length ?bs"
      then have i: "i < length els" using ti by (simp add: trav_inv_def)
      then have "els ! i \<in> set els" by simp
      from marked[OF this] show "?bs ! i" using graph_ok_nth[OF ok i] by simp
    qed
    then have "?m = length els" using count_list_all_True[of ?bs] ti by (simp add: trav_inv_def)
    then show ?thesis using res by (simp add: min.commute)
  next
    case (Cons c rest)
    then have lt: "last (closestDistQueue t) < fst c" using ex by simp
    have "\<not> ?m \<le> nn"
    proof
      assume "?m \<le> nn"
      then have "fst ` set (candidateSet t) \<subseteq> set (closestDistQueue t)"
        using ci by (simp add: count_inv_def)
      then have "fst c \<in> set (closestDistQueue t)" using Cons by auto
      moreover have "sorted (closestDistQueue t)" using ci by (simp add: count_inv_def)
      ultimately have "fst c \<le> last (closestDistQueue t)" by (simp add: sorted_le_last)
      then show False using lt by simp
    qed
    then show ?thesis using res by simp
  qed
qed

lemma start_attempt_ok:
  assumes ok: "graph_ok (heap st) (ElList st)" and ne: "ElList st \<noteq> []"
    and len: "length bs = length (ElList st)" and sub: "snd ` set rs \<subseteq> set (ElList st)"
  shows "\<exists>s. s \<in> set (ElList st)
     \<and> start_attempt D st q (length (ElList st)) r (bs, rs)
         = Inr \<lparr>visitedBitset = bs[addIndex (heap st s) := True],
                closestDistQueue = [D q (data (heap st s))],
                candidateSet = [(D q (data (heap st s)), s)],
                resultSet = insort_key fst (D q (data (heap st s)), s) rs\<rparr>
     \<and> trav_inv (ElList st)
          \<lparr>visitedBitset = bs[addIndex (heap st s) := True],
           closestDistQueue = [D q (data (heap st s))],
           candidateSet = [(D q (data (heap st s)), s)],
           resultSet = insort_key fst (D q (data (heap st s)), s) rs\<rparr>"
proof -
  let ?s = "ElList st ! (r mod length (ElList st))"
  have s: "?s \<in> set (ElList st)" using ne by simp
  have g: "getRandomEntryPoint st r = Some ?s"
    using ne by (simp add: getRandomEntryPoint_def Let_def)
  have i: "addIndex (heap st ?s) < length (ElList st)" using ok s by (rule graph_ok_index)
  have e: "start_attempt D st q (length (ElList st)) r (bs, rs)
         = Inr \<lparr>visitedBitset = bs[addIndex (heap st ?s) := True],
                closestDistQueue = [D q (data (heap st ?s))],
                candidateSet = [(D q (data (heap st ?s)), ?s)],
                resultSet = insort_key fst (D q (data (heap st ?s)), ?s) rs\<rparr>"
    using i by (simp add: start_attempt_def g Let_def)
  have "snd ` set (insort_key fst (D q (data (heap st ?s)), ?s) rs) \<subseteq> set (ElList st)"
    using sub s by (auto simp: set_insort_key)
  then have "trav_inv (ElList st)
          \<lparr>visitedBitset = bs[addIndex (heap st ?s) := True],
           closestDistQueue = [D q (data (heap st ?s))],
           candidateSet = [(D q (data (heap st ?s)), ?s)],
           resultSet = insort_key fst (D q (data (heap st ?s)), ?s) rs\<rparr>"
    using len s by (simp add: trav_inv_def insort_key_nonempty)
  then show ?thesis using s e by blast
qed

lemma count_list_replicate_other: "x \<noteq> y \<Longrightarrow> count_list (replicate n x) y = 0"
  by (induction n) simp_all

lemma first_inv_start:
  assumes ok: "graph_ok h els" and s: "s \<in> set els"
    and ti: "trav_inv els \<lparr>visitedBitset = (replicate (length els) False)[addIndex (h s) := True],
           closestDistQueue = [d], candidateSet = [(d, s)], resultSet = [(d, s)]\<rparr>"
  shows "first_inv h els nn s
          \<lparr>visitedBitset = (replicate (length els) False)[addIndex (h s) := True],
           closestDistQueue = [d], candidateSet = [(d, s)], resultSet = [(d, s)]\<rparr>"
proof -
  let ?bs = "replicate (length els) False"
  let ?i = "addIndex (h s)"
  have i: "?i < length els" using ok s by (rule graph_ok_index)
  have nth: "?bs[?i := True] ! j = (j = ?i)" if "j < length els" for j
    using i that by (auto simp: nth_list_update)
  have m: "count_list (?bs[?i := True]) True = Suc 0"
    using count_list_flip[of ?i ?bs] i by (simp add: count_list_replicate_other)
  have c: "count_inv h nn \<lparr>visitedBitset = ?bs[?i := True],
           closestDistQueue = [d], candidateSet = [(d, s)], resultSet = [(d, s)]\<rparr>"
    using i by (simp add: count_inv_def m nth)
  have cl: "closed_inv h els \<lparr>visitedBitset = ?bs[?i := True],
           closestDistQueue = [d], candidateSet = [(d, s)], resultSet = [(d, s)]\<rparr>"
    unfolding closed_inv_def
  proof (intro ballI impI)
    fix p assume p: "p \<in> set els"
      and "visitedBitset \<lparr>visitedBitset = ?bs[?i := True],
           closestDistQueue = [d], candidateSet = [(d, s)], resultSet = [(d, s)]\<rparr> ! addIndex (h p)"
    then have "addIndex (h p) = ?i" using nth[OF graph_ok_index[OF ok p]] by simp
    then have "p = s" using graph_ok_inj[OF ok p s] by simp
    then show "p \<in> snd ` set (candidateSet \<lparr>visitedBitset = ?bs[?i := True],
           closestDistQueue = [d], candidateSet = [(d, s)], resultSet = [(d, s)]\<rparr>)
        \<or> (\<forall>f\<in>set (friends (h p)). visitedBitset \<lparr>visitedBitset = ?bs[?i := True],
           closestDistQueue = [d], candidateSet = [(d, s)], resultSet = [(d, s)]\<rparr> ! addIndex (h f))"
      by simp
  qed
  show ?thesis using ti c cl i by (simp add: first_inv_def nth)
qed

lemma later_attempt:
  assumes ok: "graph_ok h els" and ti: "trav_inv els t"
  shows "\<exists>t'. expand_candidates D h q nn (length els) t = Some (Inr t') \<and> trav_inv els t'
           \<and> length (resultSet t) \<le> length (resultSet t')"
proof -
  let ?I = "\<lambda>u. trav_inv els u \<and> length (resultSet t) \<le> length (resultSet u)"
  have step: "?I u'" if "?I u" "candidateSet u = c # rest"
      "visit_neighbors D h q nn (length els) (friends (h (snd c))) (u\<lparr>candidateSet := rest\<rparr>) = Inr u'"
    for u c rest u'
  proof -
    have cin: "snd c \<in> set els" using that(1,2) by (auto simp: trav_inv_def)
    have fr: "set (friends (h (snd c))) \<subseteq> set els" using ok cin by (rule graph_ok_friends)
    have u0: "trav_inv els (u\<lparr>candidateSet := rest\<rparr>)" using that(1,2) by (auto simp: trav_inv_def)
    from visit_neighbors_term[OF ok fr u0, of D q nn] that(3)
    have "trav_inv els u'" "length (resultSet (u\<lparr>candidateSet := rest\<rparr>)) \<le> length (resultSet u')"
      by auto
    then show ?thesis using that(1) by simp
  qed
  have "\<exists>t'. expand_candidates D h q nn (length els) t = Some (Inr t') \<and> ?I t'
           \<and> (candidateSet t' = [] \<or> last (closestDistQueue t') < fst (hd (candidateSet t')))"
  proof (rule expand_candidates_total[where I = ?I, OF ok])
    show "\<And>u. ?I u \<Longrightarrow> trav_inv els u" by simp
    show "?I t" using ti by simp
    show "\<And>u c rest u'. ?I u \<Longrightarrow> candidateSet u = c # rest
        \<Longrightarrow> \<not> last (closestDistQueue u) < fst c
        \<Longrightarrow> visit_neighbors D h q nn (length els) (friends (h (snd c)))
              (u\<lparr>candidateSet := rest\<rparr>) = Inr u'
        \<Longrightarrow> ?I u'"
      using step by blast
  qed
  then show ?thesis by blast
qed

lemma first_attempt:
  assumes ok: "graph_ok h els" and conn: "graph_connected h els" and s: "s \<in> set els"
    and I: "first_inv h els nn s t"
  shows "\<exists>t'. expand_candidates D h q nn (length els) t = Some (Inr t') \<and> trav_inv els t'
           \<and> min nn (length els) \<le> length (resultSet t')"
proof -
  have "\<exists>t'. expand_candidates D h q nn (length els) t = Some (Inr t') \<and> first_inv h els nn s t'
           \<and> (candidateSet t' = [] \<or> last (closestDistQueue t') < fst (hd (candidateSet t')))"
  proof (rule expand_candidates_total[where I = "first_inv h els nn s", OF ok])
    show "\<And>u. first_inv h els nn s u \<Longrightarrow> trav_inv els u" by (simp add: first_inv_def)
    show "first_inv h els nn s t" by (rule I)
    show "\<And>u c rest u'. first_inv h els nn s u \<Longrightarrow> candidateSet u = c # rest
        \<Longrightarrow> \<not> last (closestDistQueue u) < fst c
        \<Longrightarrow> visit_neighbors D h q nn (length els) (friends (h (snd c)))
              (u\<lparr>candidateSet := rest\<rparr>) = Inr u'
        \<Longrightarrow> first_inv h els nn s u'"
      using first_inv_step[OF ok s] by blast
  qed
  then obtain t' where t': "expand_candidates D h q nn (length els) t = Some (Inr t')"
    "first_inv h els nn s t'"
    "candidateSet t' = [] \<or> last (closestDistQueue t') < fst (hd (candidateSet t'))"
    by blast
  from first_inv_exit[OF ok conn s t'(2,3)] t'(1,2) show ?thesis
    by (auto simp: first_inv_def)
qed

lemma index_attempts_total:
  assumes ok: "graph_ok (heap st) (ElList st)" and ne: "ElList st \<noteq> []"
    and len: "length bs = length (ElList st)" and sub: "snd ` set rs \<subseteq> set (ElList st)"
  shows "\<exists>bs' rs'. index_attempts n D st q nn (length (ElList st)) rnd (bs, rs)
                      = Some (Inr (bs', rs'))
           \<and> length bs' = length (ElList st) \<and> snd ` set rs' \<subseteq> set (ElList st)
           \<and> length rs \<le> length rs'"
  using len sub
proof (induction n arbitrary: bs rs rnd)
  case 0
  then show ?case by simp
next
  case (Suc n)
  from start_attempt_ok[OF ok ne Suc.prems, of D q "rnd 0"]
  obtain t where t: "start_attempt D st q (length (ElList st)) (rnd 0) (bs, rs) = Inr t"
    "trav_inv (ElList st) t" "length (resultSet t) = Suc (length rs)"
    by auto
  from later_attempt[OF ok t(2), of D q nn]
  obtain t' where t': "expand_candidates D (heap st) q nn (length (ElList st)) t = Some (Inr t')"
    "trav_inv (ElList st) t'" "length (resultSet t) \<le> length (resultSet t')"
    by blast
  have l: "length (visitedBitset t') = length (ElList st)"
    "snd ` set (resultSet t') \<subseteq> set (ElList st)"
    using t'(2) by (simp_all add: trav_inv_def)
  from Suc.IH[OF l, of "\<lambda>j. rnd (Suc j)"]
  obtain bs' rs' where r: "index_attempts n D st q nn (length (ElList st)) (\<lambda>j. rnd (Suc j))
        (visitedBitset t', resultSet t') = Some (Inr (bs', rs'))"
    "length bs' = length (ElList st)" "snd ` set rs' \<subseteq> set (ElList st)"
    "length (resultSet t') \<le> length rs'"
    by blast
  have "length rs \<le> length rs'" using t(3) t'(3) r(4) by simp
  then show ?case using t(1) t'(1) r(1,2,3) by simp
qed

lemma kSearchElementsWithAttempts_total:
  assumes ok: "graph_ok (heap st) (ElList st)" and conn: "graph_connected (heap st) (ElList st)"
    and ne: "ElList st \<noteq> []" and att: "0 < attempts"
  shows "\<exists>rs. kSearchElementsWithAttempts D rnd st q nn attempts [] = Some (Inr rs)
           \<and> snd ` set rs \<subseteq> set (ElList st) \<and> rs \<noteq> []
           \<and> min nn (length (ElList st)) \<le> length rs"
proof -
  let ?els = "ElList st"
  let ?N = "length ?els"
  obtain n where n: "attempts = Suc n" using att by (cases attempts) auto
  from start_attempt_ok[OF ok ne, of "replicate ?N False" "[]" D q "rnd 0"]
  obtain s where s: "s \<in> set ?els"
    "start_attempt D st q ?N (rnd 0) (replicate ?N False, [])
       = Inr \<lparr>visitedBitset = (replicate ?N False)[addIndex (heap st s) := True],
                closestDistQueue = [D q (data (heap st s))],
                candidateSet = [(D q (data (heap st s)), s)],
                resultSet = [(D q (data (heap st s)), s)]\<rparr>"
    "trav_inv ?els \<lparr>visitedBitset = (replicate ?N False)[addIndex (heap st s) := True],
                closestDistQueue = [D q (data (heap st s))],
                candidateSet = [(D q (data (heap st s)), s)],
                resultSet = [(D q (data (heap st s)), s)]\<rparr>"
    by auto
  let ?t = "\<lparr>visitedBitset = (replicate ?N False)[addIndex (heap st s) := True],
                closestDistQueue = [D q (data (heap st s))],
                candidateSet = [(D q (data (heap st s)), s)],
                resultSet = [(D q (data (heap st s)), s)]\<rparr>"
  have "first_inv (heap st) ?els nn s ?t" using first_inv_start[OF ok s(1) s(3)] .
  from first_attempt[OF ok conn s(1) this, of D q]
  obtain t' where t': "expand_candidates D (heap st) q nn ?N ?t = Some (Inr t')"
    "trav_inv ?els t'" "min nn ?N \<le> length (resultSet t')"
    by blast
  have l: "length (visitedBitset t') = ?N" "snd ` set (resultSet t') \<subseteq> set ?els"
    using t'(2) by (simp_all add: trav_inv_def)
  from index_attempts_total[OF ok ne l, of n D q nn "\<lambda>j. rnd (Suc j)"]
  obtain bs' rs' where r: "index_attempts n D st q nn ?N (\<lambda>j. rnd (Suc j))
        (visitedBitset t', resultSet t') = Some (Inr (bs', rs'))"
    "snd ` set rs' \<subseteq> set ?els" "length (resultSet t') \<le> length rs'"
    by blast
  have "index_attempts attempts D st q nn ?N rnd (replicate ?N False, []) = Some (Inr (bs', rs'))"
    unfolding n using s(2) t'(1) r(1) by simp
  then have "kSearchElementsWithAttempts D rnd st q nn attempts [] = Some (Inr rs')"
    by (simp add: kSearchElementsWithAttempts_def)
  moreover have "min nn ?N \<le> length rs'" using t'(3) r(3) by simp
  moreover have "resultSet t' \<noteq> []" using t'(2) by (simp add: trav_inv_def)
  then have "rs' \<noteq> []" using r(3) by auto
  ultimately show ?thesis using r(2) by blast
qed

lemma link_friends_new:
  "r \<noteq> x \<Longrightarrow> friends (heap (link r x st) x) = friends (heap st x) @ [r]"
  by (simp add: link_def addFriend_def)

lemma link_results_friends:
  "x \<notin> snd ` set rs \<Longrightarrow>
     friends (heap (link_results rs x st) x) = friends (heap st x) @ rev (map snd rs)"
proof (induction rs x st rule: link_results.induct)
  case (1 rs x st)
  show ?case
  proof (cases "rs = []")
    case True
    then show ?thesis by (subst link_results.simps) simp
  next
    case False
    then have rs: "rs = butlast rs @ [last rs]" by simp
    have l: "snd (last rs) \<noteq> x" using "1.prems" False by (metis last_in_set image_eqI)
    have b: "x \<notin> snd ` set (butlast rs)" using "1.prems" by (auto dest: in_set_butlastD)
    have "rev (map snd rs) = snd (last rs) # rev (map snd (butlast rs))"
      by (subst rs) simp
    then show ?thesis
      using "1.IH"[OF False b] False link_friends_new[OF l, of st]
      by (subst link_results.simps) simp
  qed
qed

lemma removeAllFriends_graph:
  assumes "x \<notin> set (ElList st)"
  shows "graph_ok (heap (removeAllFriends x st)) (ElList (removeAllFriends x st))
           = graph_ok (heap st) (ElList st)"
    and "graph_connected (heap (removeAllFriends x st)) (ElList (removeAllFriends x st))
           = graph_connected (heap st) (ElList st)"
proof -
  let ?st = "removeAllFriends x st"
  have el: "ElList ?st = ElList st" by (simp add: removeAllFriends_def)
  have h: "heap ?st p = heap st p" if "p \<in> set (ElList st)" for p
    using that assms by (auto simp: removeAllFriends_def)
  have m: "map (\<lambda>p. addIndex (heap ?st p)) (ElList st) = map (\<lambda>p. addIndex (heap st p)) (ElList st)"
    using h by simp
  have l: "list_all (\<lambda>p. list_all (\<lambda>f. f \<in> set (ElList st)) (friends (heap ?st p))) (ElList st)
    = list_all (\<lambda>p. list_all (\<lambda>f. f \<in> set (ElList st)) (friends (heap st p))) (ElList st)"
    using h by (simp add: list_all_iff)
  show "graph_ok (heap ?st) (ElList ?st) = graph_ok (heap st) (ElList st)"
    by (simp only: graph_ok_def el m l)
  have r: "{(a, b). a \<in> set (ElList st) \<and> b \<in> set (friends (heap ?st a))}
      = {(a, b). a \<in> set (ElList st) \<and> b \<in> set (friends (heap st a))}"
    using h by auto
  show "graph_connected (heap ?st) (ElList ?st) = graph_connected (heap st) (ElList st)"
    by (simp only: graph_connected_def el r)
qed

lemma distinct_snd_insort_key:
  "distinct (map snd (insort_key f x xs)) = (snd x \<notin> snd ` set xs \<and> distinct (map snd xs))"
  by (induction xs) (auto simp: set_insort_key)

lemma distinct_snd_butlast: "distinct (map snd xs) \<Longrightarrow> distinct (map snd (butlast xs))"
  by (simp add: map_butlast distinct_butlast)

lemma count_list_bool: "count_list bs True + count_list bs False = length bs"
  by (induction bs) auto

text \<open>In the first attempt the loop body keeps the result set within \<open>nn\<close> entries, one per
  marked node at most.\<close>

lemma visit_neighbor_result:
  assumes ok: "graph_ok h els" and p: "p \<in> set els" and inv: "trav_inv els t"
    and res: "result_inv h nn t"
    and eq: "visit_neighbor D h q nn (length els) p t = Inr t'"
  shows "result_inv h nn t'"
proof -
  have i: "addIndex (h p) < length els" using ok p by (rule graph_ok_index)
  have ne: "resultSet t \<noteq> []" and len: "length (visitedBitset t) = length els"
    using inv by (simp_all add: trav_inv_def)
  let ?d = "D q (data (h p))"
  let ?bs = "visitedBitset t"
  let ?i = "addIndex (h p)"
  let ?m = "count_list ?bs True"
  let ?cq = "if nn \<le> length (closestDistQueue t)
                      then butlast (insort ?d (closestDistQueue t))
                      else insort ?d (closestDistQueue t)"
  let ?ins = "insort_key fst (?d, p) (resultSet t)"
  from visit_neighbor_published[where h=h and p=p and t=t and entryQty="length els"
        and D=D and q=q and nn=nn, OF i ne]
  consider (skip) "visit_neighbor D h q nn (length els) p t = Inr t"
    | (eval) rs where "\<not> ?bs ! ?i"
        "visit_neighbor D h q nn (length els) p t
            = Inr \<lparr>visitedBitset = ?bs[?i := True], closestDistQueue = ?cq,
                   candidateSet = insort_key fst (?d, p) (candidateSet t),
                   resultSet = rs\<rparr>"
        "rs = resultSet t \<and> nn \<le> length (resultSet t)
             \<or> rs = ?ins \<and> length (resultSet t) < nn
             \<or> rs = butlast ?ins \<and> nn \<le> length (resultSet t)"
    by blast
  then show ?thesis
  proof cases
    case skip
    then have "t' = t" using eq by simp
    then show ?thesis using res by simp
  next
    case (eval rs)
    have t': "t' = \<lparr>visitedBitset = ?bs[?i := True], closestDistQueue = ?cq,
                   candidateSet = insort_key fst (?d, p) (candidateSet t),
                   resultSet = rs\<rparr>"
      using eq eval(2) by simp
    have il: "?i < length ?bs" using i len by simp
    have m': "count_list (?bs[?i := True]) True = Suc ?m"
      using count_list_flip[OF il eval(1)] by simp
    have nth: "?bs[?i := True] ! j = (j = ?i \<or> ?bs ! j)" for j
      using il by (auto simp: nth_list_update)
    from res have r1: "length (resultSet t) \<le> nn" and r2: "length (resultSet t) \<le> ?m"
      and r3: "distinct (map snd (resultSet t))"
      and r4: "\<forall>e\<in>set (resultSet t). ?bs ! addIndex (h (snd e))"
      by (simp_all add: result_inv_def)
    have fresh: "p \<notin> snd ` set (resultSet t)" using r4 eval(1) by auto
    have d_ins: "distinct (map snd ?ins)" using fresh r3 by (simp add: distinct_snd_insort_key)
    have s_ins: "\<forall>e\<in>set ?ins. ?bs[?i := True] ! addIndex (h (snd e))"
      using r4 by (auto simp: set_insort_key nth)
    have n1: "length rs \<le> nn" using eval(3) r1 by auto
    have n2: "length rs \<le> Suc ?m" using eval(3) r2 by auto
    have n3: "distinct (map snd rs)" using eval(3) r3 d_ins by (auto simp: distinct_snd_butlast)
    have n4: "\<forall>e\<in>set rs. ?bs[?i := True] ! addIndex (h (snd e))"
      using eval(3) r4 s_ins by (auto simp: nth dest: in_set_butlastD)
    show ?thesis unfolding t' result_inv_def using n1 n2 n3 n4 by (simp add: m')
  qed
qed

lemma visit_neighbors_result:
  assumes ok: "graph_ok h els" and ps: "set ps \<subseteq> set els" and inv: "trav_inv els t"
    and res: "result_inv h nn t"
    and eq: "visit_neighbors D h q nn (length els) ps t = Inr t'"
  shows "result_inv h nn t'"
  using ps inv res eq
proof (induction ps arbitrary: t)
  case Nil
  then show ?case by simp
next
  case (Cons p ps)
  from Cons.prems(1) have p: "p \<in> set els" and ps: "set ps \<subseteq> set els" by simp_all
  from visit_neighbor_term[OF ok p Cons.prems(2), of D q nn]
  obtain t1 where t1: "visit_neighbor D h q nn (length els) p t = Inr t1" "trav_inv els t1"
    by blast
  have r1: "result_inv h nn t1" using visit_neighbor_result[OF ok p Cons.prems(2,3) t1(1)] .
  have eq': "visit_neighbors D h q nn (length els) ps t1 = Inr t'"
    using Cons.prems(4) t1(1) by simp
  show ?case using Cons.IH[OF ps t1(2) r1 eq'] .
qed

lemma result_inv_start:
  assumes ok: "graph_ok h els" and s: "s \<in> set els" and nn: "0 < nn"
  shows "result_inv h nn
          \<lparr>visitedBitset = (replicate (length els) False)[addIndex (h s) := True],
           closestDistQueue = [d], candidateSet = [(d, s)], resultSet = [(d, s)]\<rparr>"
proof -
  let ?bs = "replicate (length els) False"
  let ?i = "addIndex (h s)"
  have i: "?i < length els" using ok s by (rule graph_ok_index)
  have m: "count_list (?bs[?i := True]) True = Suc 0"
    using count_list_flip[of ?i ?bs] i by (simp add: count_list_replicate_other)
  show ?thesis using i nn by (simp add: result_inv_def m)
qed

text \<open>The first attempt ends with exactly \<open>min nn N\<close> entries, of different nodes; the result
  set is then full, or every node is marked.\<close>

lemma single_attempt:
  assumes ok: "graph_ok h els" and conn: "graph_connected h els" and s: "s \<in> set els"
    and I: "first_inv h els nn s t" and R: "result_inv h nn t"
  shows "\<exists>t'. expand_candidates D h q nn (length els) t = Some (Inr t') \<and> trav_inv els t'
           \<and> length (resultSet t') = min nn (length els)
           \<and> distinct (map snd (resultSet t'))
           \<and> (nn \<le> length (resultSet t') \<or> count_list (visitedBitset t') False = 0)"
proof -
  let ?I = "\<lambda>u. first_inv h els nn s u \<and> result_inv h nn u"
  have step: "?I u'" if u: "?I u" and c: "candidateSet u = c # rest"
      and eq: "visit_neighbors D h q nn (length els) (friends (h (snd c)))
                 (u\<lparr>candidateSet := rest\<rparr>) = Inr u'"
    for u c rest u'
  proof -
    have ti: "trav_inv els u" using u by (simp add: first_inv_def)
    have cin: "snd c \<in> set els" using ti c by (auto simp: trav_inv_def)
    have fr: "set (friends (h (snd c))) \<subseteq> set els" using ok cin by (rule graph_ok_friends)
    have u0: "trav_inv els (u\<lparr>candidateSet := rest\<rparr>)" using ti c by (auto simp: trav_inv_def)
    have r0: "result_inv h nn (u\<lparr>candidateSet := rest\<rparr>)" using u by (simp add: result_inv_def)
    have "first_inv h els nn s u'" using first_inv_step[OF ok s _ c eq] u by simp
    moreover have "result_inv h nn u'" using visit_neighbors_result[OF ok fr u0 r0 eq] .
    ultimately show ?thesis by simp
  qed
  have "\<exists>t'. expand_candidates D h q nn (length els) t = Some (Inr t') \<and> ?I t'
           \<and> (candidateSet t' = [] \<or> last (closestDistQueue t') < fst (hd (candidateSet t')))"
  proof (rule expand_candidates_total[where I = ?I, OF ok])
    show "\<And>u. ?I u \<Longrightarrow> trav_inv els u" by (simp add: first_inv_def)
    show "?I t" using I R by simp
    show "\<And>u c rest u'. ?I u \<Longrightarrow> candidateSet u = c # rest
        \<Longrightarrow> \<not> last (closestDistQueue u) < fst c
        \<Longrightarrow> visit_neighbors D h q nn (length els) (friends (h (snd c)))
              (u\<lparr>candidateSet := rest\<rparr>) = Inr u'
        \<Longrightarrow> ?I u'"
      using step by blast
  qed
  then obtain t' where t': "expand_candidates D h q nn (length els) t = Some (Inr t')"
    "first_inv h els nn s t'" "result_inv h nn t'"
    "candidateSet t' = [] \<or> last (closestDistQueue t') < fst (hd (candidateSet t'))"
    by blast
  have ti: "trav_inv els t'" using t'(2) by (simp add: first_inv_def)
  have lo: "min nn (length els) \<le> length (resultSet t')"
    using first_inv_exit[OF ok conn s t'(2,4)] .
  have "count_list (visitedBitset t') True \<le> length els"
    using count_le_length[of "visitedBitset t'" True] ti by (simp add: trav_inv_def)
  then have hi: "length (resultSet t') \<le> min nn (length els)"
    using t'(3) by (simp add: result_inv_def)
  have eq: "length (resultSet t') = min nn (length els)" using lo hi by simp
  have full: "nn \<le> length (resultSet t') \<or> count_list (visitedBitset t') False = 0"
  proof (cases "nn \<le> length els")
    case True
    then show ?thesis using eq by simp
  next
    case False
    then have "length els \<le> count_list (visitedBitset t') True"
      using eq t'(3) by (simp add: result_inv_def)
    moreover have "count_list (visitedBitset t') True + count_list (visitedBitset t') False
        = length els"
      using count_list_bool[of "visitedBitset t'"] ti by (simp add: trav_inv_def)
    ultimately show ?thesis by simp
  qed
  show ?thesis using t'(1,3) ti eq full by (auto simp: result_inv_def)
qed

lemma kSearchElementsWithAttempts_single:
  assumes ok: "graph_ok (heap st) (ElList st)" and conn: "graph_connected (heap st) (ElList st)"
    and ne: "ElList st \<noteq> []" and nn: "0 < nn"
  shows "\<exists>rs. kSearchElementsWithAttempts D rnd st q nn (Suc 0) [] = Some (Inr rs)
           \<and> snd ` set rs \<subseteq> set (ElList st) \<and> distinct (map snd rs)
           \<and> length rs = min nn (length (ElList st))"
proof -
  let ?els = "ElList st"
  let ?N = "length ?els"
  from start_attempt_ok[OF ok ne, of "replicate ?N False" "[]" D q "rnd 0"]
  obtain s where s: "s \<in> set ?els"
    "start_attempt D st q ?N (rnd 0) (replicate ?N False, [])
       = Inr \<lparr>visitedBitset = (replicate ?N False)[addIndex (heap st s) := True],
                closestDistQueue = [D q (data (heap st s))],
                candidateSet = [(D q (data (heap st s)), s)],
                resultSet = [(D q (data (heap st s)), s)]\<rparr>"
    "trav_inv ?els \<lparr>visitedBitset = (replicate ?N False)[addIndex (heap st s) := True],
                closestDistQueue = [D q (data (heap st s))],
                candidateSet = [(D q (data (heap st s)), s)],
                resultSet = [(D q (data (heap st s)), s)]\<rparr>"
    by auto
  let ?t = "\<lparr>visitedBitset = (replicate ?N False)[addIndex (heap st s) := True],
                closestDistQueue = [D q (data (heap st s))],
                candidateSet = [(D q (data (heap st s)), s)],
                resultSet = [(D q (data (heap st s)), s)]\<rparr>"
  have f: "first_inv (heap st) ?els nn s ?t" using first_inv_start[OF ok s(1) s(3)] .
  have r: "result_inv (heap st) nn ?t" using result_inv_start[OF ok s(1) nn] .
  from single_attempt[OF ok conn s(1) f r, of D q]
  obtain t' where t': "expand_candidates D (heap st) q nn ?N ?t = Some (Inr t')"
    "trav_inv ?els t'" "length (resultSet t') = min nn ?N" "distinct (map snd (resultSet t'))"
    by blast
  have "index_attempts (Suc 0) D st q nn ?N rnd (replicate ?N False, [])
          = Some (Inr (visitedBitset t', resultSet t'))"
    using s(2) t'(1) by simp
  then have "kSearchElementsWithAttempts D rnd st q nn (Suc 0) [] = Some (Inr (resultSet t'))"
    by (simp add: kSearchElementsWithAttempts_def)
  moreover have "snd ` set (resultSet t') \<subseteq> set ?els" using t'(2) by (simp add: trav_inv_def)
  ultimately show ?thesis using t'(3,4) by blast
qed

text \<open>
  Claim C2 (amended). Let the graph have \<open>N\<^sub>0 \<ge> 1\<close> published nodes that carry the indices
  \<open>0, ..., N\<^sub>0 - 1\<close>, have published friends only and are connected by friend edges; let
  \<open>x\<close> be a node that is not published, let \<open>NN\<close> be positive, and let there be a single
  attempt (\<^verbatim>\<open>initIndexAttempts_\<close> is 1). Then \<^verbatim>\<open>add\<close> returns, and immediately afterwards the
  friends list of \<open>x\<close> has exactly \<open>min NN N\<^sub>0\<close> entries; they are published nodes and differ
  from each other.
\<close>

theorem add_degree_single_attempt:
  assumes ok: "graph_ok (heap st) (ElList st)"
    and conn: "graph_connected (heap st) (ElList st)"
    and ne: "ElList st \<noteq> []"
    and fresh: "newElement \<notin> set (ElList st)"
    and nn: "0 < NN st"
    and att: "initIndexAttempts st = 1"
  shows "\<exists>st'.
      add IndexTimeDistance rnd newElement st = Some (Inr st')
    \<and> length (friends (heap st' newElement)) = min (NN st) (length (ElList st))
    \<and> distinct (friends (heap st' newElement))
    \<and> set (friends (heap st' newElement)) \<subseteq> set (ElList st)"
proof -
  let ?st = "removeAllFriends newElement st"
  have sel: "ElList ?st = ElList st" "data (heap ?st newElement) = data (heap st newElement)"
    "NN ?st = NN st" "initIndexAttempts ?st = Suc 0"
    "friends (heap ?st newElement) = []"
    using att by (simp_all add: removeAllFriends_def)
  have ok': "graph_ok (heap ?st) (ElList ?st)" and conn': "graph_connected (heap ?st) (ElList ?st)"
    using removeAllFriends_graph[OF fresh] ok conn by simp_all
  have ne': "ElList ?st \<noteq> []" using ne sel by simp
  from kSearchElementsWithAttempts_single[OF ok' conn' ne' nn,
      of IndexTimeDistance rnd "data (heap st newElement)"]
  obtain rs where rs: "kSearchElementsWithAttempts IndexTimeDistance rnd ?st
          (data (heap st newElement)) (NN st) (Suc 0) [] = Some (Inr rs)"
    "snd ` set rs \<subseteq> set (ElList st)" "distinct (map snd rs)"
    "length rs = min (NN st) (length (ElList st))"
    using sel by auto
  let ?st' = "addCriticalSection newElement (link_results rs newElement ?st)"
  have a: "add IndexTimeDistance rnd newElement st = Some (Inr ?st')"
    using rs(1) ne by (simp add: add_def Let_def sel)
  have "newElement \<notin> snd ` set rs" using rs(2) fresh by auto
  then have "friends (heap (link_results rs newElement ?st) newElement) = rev (map snd rs)"
    by (simp add: link_results_friends sel)
  then have f: "friends (heap ?st' newElement) = rev (map snd rs)"
    by (simp add: addCriticalSection_def)
  have "length (friends (heap ?st' newElement)) = min (NN st) (length (ElList st))"
    using f rs(4) by simp
  moreover have "distinct (friends (heap ?st' newElement))" using f rs(3) by simp
  moreover have "set (friends (heap ?st' newElement)) \<subseteq> set (ElList st)"
    using f rs(2) by auto
  ultimately show ?thesis using a by blast
qed

text \<open>The insertion of node 2 (object 0) into \<open>two_index\<close>, with node 0 as the entry point of
  the first attempt and node 1 as the entry point of the second.\<close>

lemma two_heap_simps:
  "two_heap 0 = \<lparr>data = 1, addIndex = 0, friends = [1, 1]\<rparr>"
  "two_heap (Suc 0) = \<lparr>data = 2, addIndex = 1, friends = [0, 0]\<rparr>"
  "two_heap 2 = \<lparr>data = 0, addIndex = SIZE_MAX, friends = []\<rparr>"
  by (simp_all add: two_heap_def)

lemma two_expand1:
  "expand_candidates abs_dist two_heap 0 (Suc 0) (Suc (Suc 0))
     \<lparr>visitedBitset = [True, False], closestDistQueue = [1], candidateSet = [(1, 0)],
      resultSet = [(1, 0)]\<rparr>
   = Some (Inr \<lparr>visitedBitset = [True, True], closestDistQueue = [1], candidateSet = [(2, Suc 0)],
                resultSet = [(1, 0)]\<rparr>)"
  apply (subst expand_candidates.simps)
  apply (simp add: two_heap_simps visit_neighbor_def abs_dist_def Let_def)
  apply (subst expand_candidates.simps)
  apply simp
  done

lemma two_expand2:
  "expand_candidates abs_dist two_heap 0 (Suc 0) (Suc (Suc 0))
     \<lparr>visitedBitset = [True, True], closestDistQueue = [2], candidateSet = [(2, Suc 0)],
      resultSet = [(1, 0), (2, Suc 0)]\<rparr>
   = Some (Inr \<lparr>visitedBitset = [True, True], closestDistQueue = [2], candidateSet = [],
                resultSet = [(1, 0), (2, Suc 0)]\<rparr>)"
  apply (subst expand_candidates.simps)
  apply (simp add: two_heap_simps visit_neighbor_def abs_dist_def Let_def)
  apply (subst expand_candidates.simps)
  apply simp
  done

lemma two_kSearch:
  "kSearchElementsWithAttempts abs_dist id two_index 0 (Suc 0) 2 [] = Some (Inr [(1, 0), (2, 1)])"
  by (simp add: kSearchElementsWithAttempts_def two_index_def numeral_2_eq_2
      start_attempt_def getRandomEntryPoint_def two_heap_simps abs_dist_def[of 0 1]
      abs_dist_def[of 0 2] two_expand1 two_expand2)

lemma two_links:
  "link_results [(1::int, 0), (2, Suc 0)] 2 st = link 0 2 (link (Suc 0) 2 st)"
  by (simp add: link_results.simps[of "[(1, 0), (2, Suc 0)]"] link_results.simps[of "[(1, 0)]"]
      link_results.simps[of "[]"])

lemma two_removeAllFriends: "removeAllFriends 2 two_index = two_index"
proof -
  have "heap (removeAllFriends 2 two_index) = two_heap"
    by (rule ext) (simp add: removeAllFriends_def two_index_def two_heap_def)
  then show ?thesis by (simp add: removeAllFriends_def two_index_def)
qed

lemma add_two_index:
  "add abs_dist id 2 two_index
     = Some (Inr (addCriticalSection 2 (link 0 2 (link (Suc 0) 2 two_index))))"
proof -
  have "kSearchElementsWithAttempts abs_dist id two_index (data (heap two_index 2))
          (NN two_index) (initIndexAttempts two_index) [] = Some (Inr [(1, 0), (2, Suc 0)])"
    using two_kSearch by (simp add: two_index_def two_heap_simps)
  then show ?thesis
    by (simp add: add_def Let_def two_removeAllFriends two_links)
      (simp add: two_index_def)
qed

lemma add_two_index_state:
  "friends (heap (addCriticalSection 2 (link 0 2 (link (Suc 0) 2 two_index))) 2) = [1, 0]"
  by (simp add: addCriticalSection_def link_def addFriend_def two_index_def two_heap_def)

text \<open>
  Claim C2 as stated fails: after the insertion of node 2 into the graph of the two nodes 0
  and 1 with \<open>NN = 1\<close>, node 2 has the two friends 1 and 0, and not \<open>min 1 2 = 1\<close> friend.
  The first attempt, from node 0, leaves node 0 in the result set; the second attempt
  emplaces its entry point, node 1, as well.
\<close>

theorem add_degree_counterexample:
  "add abs_dist id 2 two_index
     = Some (Inr (addCriticalSection 2 (link 0 2 (link (Suc 0) 2 two_index))))
   \<and> length (ElList two_index) = 2 \<and> NN two_index = 1
   \<and> friends (heap (addCriticalSection 2 (link 0 2 (link (Suc 0) 2 two_index))) 2) = [1, 0]
   \<and> length (friends (heap (addCriticalSection 2 (link 0 2 (link (Suc 0) 2 two_index))) 2))
       \<noteq> min (NN two_index) (length (ElList two_index))"
  using add_two_index add_two_index_state by (simp add: two_index_def)

text \<open>The insertion of node 3 (object 0) into \<open>three_index\<close>, with node 0 as the entry point.
  Node 1 is emplaced while the result set has fewer than \<open>NN\<close> entries; node 2 is evaluated
  and not emplaced, because the result set is full and node 2 is farther than its top;
  node 1 is expanded and has no unmarked neighbour, and the loop ends at node 2, which is
  farther than the largest of the closest distances.\<close>

lemma three_heap_simps:
  "three_heap 0 = \<lparr>data = 10, addIndex = 0, friends = [1, 2]\<rparr>"
  "three_heap (Suc 0) = \<lparr>data = 20, addIndex = 1, friends = [0, 2]\<rparr>"
  "three_heap 2 = \<lparr>data = 30, addIndex = 2, friends = [0, 1]\<rparr>"
  "three_heap 3 = \<lparr>data = 0, addIndex = SIZE_MAX, friends = []\<rparr>"
  by (simp_all add: three_heap_def)

lemma three_expand:
  "expand_candidates abs_dist three_heap 0 2 (Suc (Suc (Suc 0)))
     \<lparr>visitedBitset = [True, False, False], closestDistQueue = [10], candidateSet = [(10, 0)],
      resultSet = [(10, 0)]\<rparr>
   = Some (Inr \<lparr>visitedBitset = [True, True, True], closestDistQueue = [10, 20],
                candidateSet = [(30, 2)], resultSet = [(10, 0), (20, Suc 0)]\<rparr>)"
  apply (subst expand_candidates.simps)
  apply (simp add: three_heap_simps visit_neighbor_def abs_dist_def Let_def)
  apply (subst expand_candidates.simps)
  apply (simp add: three_heap_simps visit_neighbor_def abs_dist_def Let_def)
  apply (subst expand_candidates.simps)
  apply simp
  done

lemma three_kSearch:
  "kSearchElementsWithAttempts abs_dist (\<lambda>_. 0) three_index 0 2 (Suc 0) []
     = Some (Inr [(10, 0), (20, 1)])"
  by (simp add: kSearchElementsWithAttempts_def three_index_def
      start_attempt_def getRandomEntryPoint_def three_heap_simps abs_dist_def[of 0 10]
      three_expand)

lemma three_links:
  "link_results [(10::int, 0), (20, Suc 0)] 3 st = link 0 3 (link (Suc 0) 3 st)"
  by (simp add: link_results.simps[of "[(10, 0), (20, Suc 0)]"] link_results.simps[of "[(10, 0)]"]
      link_results.simps[of "[]"])

lemma three_removeAllFriends: "removeAllFriends 3 three_index = three_index"
proof -
  have "heap (removeAllFriends 3 three_index) = three_heap"
    by (rule ext) (simp add: removeAllFriends_def three_index_def three_heap_def)
  then show ?thesis by (simp add: removeAllFriends_def three_index_def)
qed

lemma add_three_index:
  "add abs_dist (\<lambda>_. 0) 3 three_index
     = Some (Inr (addCriticalSection 3 (link 0 3 (link (Suc 0) 3 three_index))))"
proof -
  have "kSearchElementsWithAttempts abs_dist (\<lambda>_. 0) three_index (data (heap three_index 3))
          (NN three_index) (initIndexAttempts three_index) [] = Some (Inr [(10, 0), (20, Suc 0)])"
    using three_kSearch by (simp add: three_index_def three_heap_simps)
  then show ?thesis
    by (simp add: add_def Let_def three_removeAllFriends three_links)
      (simp add: three_index_def)
qed

lemma add_three_index_state:
  "friends (heap (addCriticalSection 3 (link 0 3 (link (Suc 0) 3 three_index))) 3) = [1, 0]"
  by (simp add: addCriticalSection_def link_def addFriend_def three_index_def three_heap_def)

text \<open>The amended claim at this insertion: the graph of the nodes 0, 1 and 2 satisfies the
  hypotheses, and node 3 gets \<open>min 2 3 = 2\<close> friends, the nodes 1 and 0.\<close>

theorem add_degree_single_attempt_witness:
  "graph_ok (heap three_index) (ElList three_index)
   \<and> graph_connected (heap three_index) (ElList three_index)
   \<and> ElList three_index \<noteq> [] \<and> 3 \<notin> set (ElList three_index)
   \<and> 0 < NN three_index \<and> initIndexAttempts three_index = 1
   \<and> add abs_dist (\<lambda>_. 0) 3 three_index
       = Some (Inr (addCriticalSection 3 (link 0 3 (link (Suc 0) 3 three_index))))
   \<and> friends (heap (addCriticalSection 3 (link 0 3 (link (Suc 0) 3 three_index))) 3) = [1, 0]
   \<and> length (friends (heap (addCriticalSection 3 (link 0 3 (link (Suc 0) 3 three_index))) 3))
       = min (NN three_index) (length (ElList three_index))"
proof -
  have a: "graph_ok (heap three_index) (ElList three_index)"
    by (simp add: graph_ok_def three_index_def three_heap_simps upt_rec)
  have e: "(0, Suc 0) \<in> {(a, b). a \<in> set [0, Suc 0, 2] \<and> b \<in> set (friends (three_heap a))}"
    "(0, 2) \<in> {(a, b). a \<in> set [0, Suc 0, 2] \<and> b \<in> set (friends (three_heap a))}"
    "(Suc 0, 0) \<in> {(a, b). a \<in> set [0, Suc 0, 2] \<and> b \<in> set (friends (three_heap a))}"
    "(Suc 0, 2) \<in> {(a, b). a \<in> set [0, Suc 0, 2] \<and> b \<in> set (friends (three_heap a))}"
    "(2, 0) \<in> {(a, b). a \<in> set [0, Suc 0, 2] \<and> b \<in> set (friends (three_heap a))}"
    "(2, Suc 0) \<in> {(a, b). a \<in> set [0, Suc 0, 2] \<and> b \<in> set (friends (three_heap a))}"
    by (simp_all add: three_heap_simps)
  then have b: "graph_connected (heap three_index) (ElList three_index)"
    by (auto simp: graph_connected_def three_index_def)
  have c: "ElList three_index \<noteq> []" "3 \<notin> set (ElList three_index)"
    "0 < NN three_index" "initIndexAttempts three_index = 1"
    by (simp_all add: three_index_def)
  from add_degree_single_attempt[OF a b c, of abs_dist "\<lambda>_. 0"]
  have "length (friends (heap (addCriticalSection 3 (link 0 3 (link (Suc 0) 3 three_index))) 3))
       = min (NN three_index) (length (ElList three_index))"
    by (auto simp: add_three_index)
  then show ?thesis using a b c add_three_index add_three_index_state by simp
qed

text \<open>\<open>three_index\<close> is the state in which the sequential constructor inserts the fourth
  object of the data set 10, 20, 30, 0.\<close>

lemma three_index_built:
  "SmallWorldRand_ctor abs_dist (\<lambda>_. 0) 0 free_store
     \<lparr>param_NN = Some 2, param_initIndexAttempts = Some 1, param_initSearchAttempts = None,
      param_indexThreadQty = None\<rparr> [10, 20, 30]
     = Some (Constructed (three_index\<lparr>heap_next := 3\<rparr>))
   \<and> new_MSWNode 0 (three_index\<lparr>heap_next := 3\<rparr>) = (3, three_index)"
proof -
  define s1 :: "int SmallWorldRand" where "s1 =
     \<lparr>NN = 2, initIndexAttempts = Suc 0, initSearchAttempts = 10, indexThreadQty = 0,
      ElList = [0], heap = free_store(0 := \<lparr>data = 10, addIndex = 0, friends = []\<rparr>),
      heap_next = Suc 0\<rparr>"
  define s1a where "s1a = snd (new_MSWNode 20 s1)"
  define r1 where "r1 = removeAllFriends (Suc 0) s1a"
  define s2 where "s2 = addCriticalSection (Suc 0) (link 0 (Suc 0) r1)"
  define s2a where "s2a = snd (new_MSWNode 30 s2)"
  define r2 where "r2 = removeAllFriends 2 s2a"
  define s3 where "s3 = addCriticalSection 2 (link (Suc 0) 2 (link 0 2 r2))"
  have n1: "new_MSWNode 20 s1 = (Suc 0, s1a)"
    by (simp add: s1a_def new_MSWNode_def s1_def)
  have a1: "ElList r1 = [0]" "friends (heap r1 0) = []" "addIndex (heap r1 0) = 0"
    "data (heap r1 (Suc 0)) = 20" "data (heap r1 0) = 10" "NN r1 = 2"
    "initIndexAttempts r1 = Suc 0"
    by (simp_all add: r1_def s1a_def s1_def new_MSWNode_def removeAllFriends_def)
  have "index_attempts (Suc 0) abs_dist r1 20 2 (Suc 0) rnd ([False], [])
           = Some (Inr ([True], [(10, 0)]))" for rnd
    by (simp add: index_attempts_single_leaf[OF a1(1,2,3)] a1 abs_dist_def
          del: index_attempts.simps)
  then have k1: "kSearchElementsWithAttempts abs_dist rnd r1 20 2 (Suc 0) []
        = Some (Inr [(10, 0)])" for rnd
    by (simp add: kSearchElementsWithAttempts_def a1 Let_def del: index_attempts.simps)
  have l1: "link_results [(10::int, 0)] (Suc 0) r1 = link 0 (Suc 0) r1"
    by (simp add: link_results.simps[of "[(10, 0)]"] link_results.simps[of "[]"])
  have ad1: "add abs_dist rnd (Suc 0) s1a = Some (Inr s2)" for rnd
    using k1 l1 a1 unfolding add_def Let_def r1_def[symmetric] s2_def by simp
  have b2: "ElList s2 = [0, Suc 0]" "heap_next s2 = 2" "NN s2 = 2" "initIndexAttempts s2 = Suc 0"
    "initSearchAttempts s2 = 10" "indexThreadQty s2 = 0"
    by (simp_all add: s2_def r1_def s1a_def s1_def new_MSWNode_def removeAllFriends_def
        addCriticalSection_def link_def addFriend_def)
  have n2: "new_MSWNode 30 s2 = (2, s2a)"
    by (simp add: s2a_def new_MSWNode_def b2)
  have a2: "ElList r2 = [0, Suc 0]"
    "heap r2 0 = \<lparr>data = 10, addIndex = 0, friends = [Suc 0]\<rparr>"
    "heap r2 (Suc 0) = \<lparr>data = 20, addIndex = Suc 0, friends = [0]\<rparr>"
    "data (heap r2 2) = 30" "NN r2 = 2" "initIndexAttempts r2 = Suc 0"
    by (simp_all add: r2_def s2a_def s2_def r1_def s1a_def s1_def new_MSWNode_def
        removeAllFriends_def addCriticalSection_def link_def addFriend_def free_store_def)
  have e2: "expand_candidates abs_dist (heap r2) 30 2 (Suc (Suc 0))
     \<lparr>visitedBitset = [True, False], closestDistQueue = [20], candidateSet = [(20, 0)],
      resultSet = [(20, 0)]\<rparr>
   = Some (Inr \<lparr>visitedBitset = [True, True], closestDistQueue = [10, 20],
                candidateSet = [], resultSet = [(10, Suc 0), (20, 0)]\<rparr>)"
    apply (subst expand_candidates.simps)
    apply (simp add: a2 visit_neighbor_def abs_dist_def Let_def)
    apply (subst expand_candidates.simps)
    apply (simp add: a2 visit_neighbor_def abs_dist_def Let_def)
    apply (subst expand_candidates.simps)
    apply simp
    done
  have k2: "kSearchElementsWithAttempts abs_dist (\<lambda>_. 0) r2 30 2 (Suc 0) []
        = Some (Inr [(10, Suc 0), (20, 0)])"
    by (simp add: kSearchElementsWithAttempts_def start_attempt_def getRandomEntryPoint_def
        a2 abs_dist_def[of 30 10] e2)
  have l2: "link_results [(10::int, Suc 0), (20, 0)] 2 r2 = link (Suc 0) 2 (link 0 2 r2)"
    by (simp add: link_results.simps[of "[(10, Suc 0), (20, 0)]"]
        link_results.simps[of "[(10, Suc 0)]"] link_results.simps[of "[]"])
  have ad2: "add abs_dist (\<lambda>_. 0) 2 s2a = Some (Inr s3)"
    using k2 l2 a2 unfolding add_def Let_def r2_def[symmetric] s3_def by simp
  have h: "heap s3 = three_heap"
    by (rule ext)
      (simp add: s3_def r2_def s2a_def s2_def r1_def s1a_def s1_def new_MSWNode_def
        removeAllFriends_def addCriticalSection_def link_def addFriend_def three_heap_def
        free_store_def)
  have fin: "s3 = three_index\<lparr>heap_next := 3\<rparr>"
    using h by (simp add: s3_def r2_def s2a_def s2_def r1_def s1a_def s1_def new_MSWNode_def
        removeAllFriends_def addCriticalSection_def link_def addFriend_def three_index_def)
  have ao: "add_objects abs_dist (\<lambda>_. 0) [20, 30] s1 = Some (Inr s3)"
    using n1 n2 ad1 ad2 by (simp add: s1_def[symmetric])
  have s: "addCriticalSection 0 (snd (new_MSWNode (10::int)
            \<lparr>NN = 2, initIndexAttempts = Suc 0, initSearchAttempts = 10, indexThreadQty = 0,
             ElList = [], heap = free_store, heap_next = 0\<rparr>)) = s1"
    by (simp add: new_MSWNode_def addCriticalSection_def s1_def)
  have c: "SmallWorldRand_ctor abs_dist (\<lambda>_. 0) 0 free_store
     \<lparr>param_NN = Some 2, param_initIndexAttempts = Some 1, param_initSearchAttempts = None,
      param_indexThreadQty = None\<rparr> [10, 20, 30]
     = Some (Constructed (three_index\<lparr>heap_next := 3\<rparr>))"
    unfolding SmallWorldRand_ctor_def GetParamOptional_def Let_def
    using s ao fin
    by (simp add: new_MSWNode_def[of 10] s1_def)
  have "three_heap(3 := \<lparr>data = 0, addIndex = SIZE_MAX, friends = []\<rparr>) = three_heap"
    by (rule ext) (simp add: three_heap_def)
  then have n: "new_MSWNode 0 (three_index\<lparr>heap_next := 3\<rparr>) = (3, three_index)"
    by (simp add: new_MSWNode_def three_index_def)
  show ?thesis using c n by simp
qed

text \<open>
  What the code does with more attempts. Every attempt after the first emplaces its entry
  point and then keeps the size of the result set: the result set is full, or every node
  is marked and no neighbour is evaluated. So with \<open>A\<close> attempts the inserted node gets
  \<open>min NN N\<^sub>0 + (A - 1)\<close> entries, and the number of claim C2 is reached with a single attempt
  only.
\<close>

lemma count_list_False_update:
  "count_list (bs[i := True]) False \<le> count_list bs False"
proof (induction bs arbitrary: i)
  case Nil
  then show ?case by simp
next
  case (Cons b bs)
  show ?case using Cons.IH by (cases i) (auto intro: le_SucI)
qed

lemma count_list_False_nth: "count_list bs False = 0 \<Longrightarrow> i < length bs \<Longrightarrow> bs ! i"
proof (induction bs arbitrary: i)
  case Nil
  then show ?case by simp
next
  case (Cons b bs)
  then show ?case by (cases i) (auto split: if_splits)
qed

lemma visit_neighbor_full:
  assumes ok: "graph_ok h els" and p: "p \<in> set els" and inv: "trav_inv els t"
    and full: "full_inv nn k t"
    and eq: "visit_neighbor D h q nn (length els) p t = Inr t'"
  shows "full_inv nn k t'"
proof -
  have i: "addIndex (h p) < length els" using ok p by (rule graph_ok_index)
  have ne: "resultSet t \<noteq> []" and len: "length (visitedBitset t) = length els"
    using inv by (simp_all add: trav_inv_def)
  let ?d = "D q (data (h p))"
  let ?bs = "visitedBitset t"
  let ?i = "addIndex (h p)"
  let ?cq = "if nn \<le> length (closestDistQueue t)
                      then butlast (insort ?d (closestDistQueue t))
                      else insort ?d (closestDistQueue t)"
  let ?ins = "insort_key fst (?d, p) (resultSet t)"
  from visit_neighbor_published[where h=h and p=p and t=t and entryQty="length els"
        and D=D and q=q and nn=nn, OF i ne]
  consider (skip) "visit_neighbor D h q nn (length els) p t = Inr t"
    | (eval) rs where "\<not> ?bs ! ?i"
        "visit_neighbor D h q nn (length els) p t
            = Inr \<lparr>visitedBitset = ?bs[?i := True], closestDistQueue = ?cq,
                   candidateSet = insort_key fst (?d, p) (candidateSet t),
                   resultSet = rs\<rparr>"
        "rs = resultSet t \<and> nn \<le> length (resultSet t)
             \<or> rs = ?ins \<and> length (resultSet t) < nn
             \<or> rs = butlast ?ins \<and> nn \<le> length (resultSet t)"
    by blast
  then show ?thesis
  proof cases
    case skip
    then have "t' = t" using eq by simp
    then show ?thesis using full by simp
  next
    case (eval rs)
    have t': "t' = \<lparr>visitedBitset = ?bs[?i := True], closestDistQueue = ?cq,
                   candidateSet = insort_key fst (?d, p) (candidateSet t),
                   resultSet = rs\<rparr>"
      using eq eval(2) by simp
    have il: "?i < length ?bs" using i len by simp
    have "count_list ?bs False \<noteq> 0" using count_list_False_nth[OF _ il] eval(1) by blast
    then have k: "length (resultSet t) = k" "nn \<le> k" using full by (simp_all add: full_inv_def)
    then have "length rs = k" using eval(3) by auto
    then show ?thesis unfolding t' full_inv_def using k(2) by simp
  qed
qed

lemma visit_neighbors_full:
  assumes ok: "graph_ok h els" and ps: "set ps \<subseteq> set els" and inv: "trav_inv els t"
    and full: "full_inv nn k t"
    and eq: "visit_neighbors D h q nn (length els) ps t = Inr t'"
  shows "full_inv nn k t'"
  using ps inv full eq
proof (induction ps arbitrary: t)
  case Nil
  then show ?case by simp
next
  case (Cons p ps)
  from Cons.prems(1) have p: "p \<in> set els" and ps: "set ps \<subseteq> set els" by simp_all
  from visit_neighbor_term[OF ok p Cons.prems(2), of D q nn]
  obtain t1 where t1: "visit_neighbor D h q nn (length els) p t = Inr t1" "trav_inv els t1"
    by blast
  have r1: "full_inv nn k t1" using visit_neighbor_full[OF ok p Cons.prems(2,3) t1(1)] .
  have eq': "visit_neighbors D h q nn (length els) ps t1 = Inr t'"
    using Cons.prems(4) t1(1) by simp
  show ?case using Cons.IH[OF ps t1(2) r1 eq'] .
qed

lemma restart_attempt:
  assumes ok: "graph_ok h els" and ti: "trav_inv els t" and full: "full_inv nn k t"
  shows "\<exists>t'. expand_candidates D h q nn (length els) t = Some (Inr t') \<and> trav_inv els t'
           \<and> full_inv nn k t'"
proof -
  let ?I = "\<lambda>u. trav_inv els u \<and> full_inv nn k u"
  have step: "?I u'" if u: "?I u" and c: "candidateSet u = c # rest"
      and eq: "visit_neighbors D h q nn (length els) (friends (h (snd c)))
                 (u\<lparr>candidateSet := rest\<rparr>) = Inr u'"
    for u c rest u'
  proof -
    have cin: "snd c \<in> set els" using u c by (auto simp: trav_inv_def)
    have fr: "set (friends (h (snd c))) \<subseteq> set els" using ok cin by (rule graph_ok_friends)
    have u0: "trav_inv els (u\<lparr>candidateSet := rest\<rparr>)" using u c by (auto simp: trav_inv_def)
    have f0: "full_inv nn k (u\<lparr>candidateSet := rest\<rparr>)" using u by (simp add: full_inv_def)
    from visit_neighbors_term[OF ok fr u0, of D q nn] eq
    have "trav_inv els u'" by auto
    moreover have "full_inv nn k u'" using visit_neighbors_full[OF ok fr u0 f0 eq] .
    ultimately show ?thesis by simp
  qed
  have "\<exists>t'. expand_candidates D h q nn (length els) t = Some (Inr t') \<and> ?I t'
           \<and> (candidateSet t' = [] \<or> last (closestDistQueue t') < fst (hd (candidateSet t')))"
  proof (rule expand_candidates_total[where I = ?I, OF ok])
    show "\<And>u. ?I u \<Longrightarrow> trav_inv els u" by simp
    show "?I t" using ti full by simp
    show "\<And>u c rest u'. ?I u \<Longrightarrow> candidateSet u = c # rest
        \<Longrightarrow> \<not> last (closestDistQueue u) < fst c
        \<Longrightarrow> visit_neighbors D h q nn (length els) (friends (h (snd c)))
              (u\<lparr>candidateSet := rest\<rparr>) = Inr u'
        \<Longrightarrow> ?I u'"
      using step by blast
  qed
  then show ?thesis by blast
qed

lemma index_attempts_restarts:
  assumes ok: "graph_ok (heap st) (ElList st)" and ne: "ElList st \<noteq> []"
    and len: "length bs = length (ElList st)" and sub: "snd ` set rs \<subseteq> set (ElList st)"
    and full: "nn \<le> length rs \<or> count_list bs False = 0"
  shows "\<exists>bs' rs'. index_attempts n D st q nn (length (ElList st)) rnd (bs, rs)
                      = Some (Inr (bs', rs'))
           \<and> snd ` set rs' \<subseteq> set (ElList st) \<and> length rs' = length rs + n"
  using len sub full
proof (induction n arbitrary: bs rs rnd)
  case 0
  then show ?case by simp
next
  case (Suc n)
  from start_attempt_ok[OF ok ne Suc.prems(1,2), of D q "rnd 0"]
  obtain s where s: "s \<in> set (ElList st)"
    "start_attempt D st q (length (ElList st)) (rnd 0) (bs, rs)
         = Inr \<lparr>visitedBitset = bs[addIndex (heap st s) := True],
                closestDistQueue = [D q (data (heap st s))],
                candidateSet = [(D q (data (heap st s)), s)],
                resultSet = insort_key fst (D q (data (heap st s)), s) rs\<rparr>"
    "trav_inv (ElList st)
          \<lparr>visitedBitset = bs[addIndex (heap st s) := True],
           closestDistQueue = [D q (data (heap st s))],
           candidateSet = [(D q (data (heap st s)), s)],
           resultSet = insort_key fst (D q (data (heap st s)), s) rs\<rparr>"
    by blast
  let ?t = "\<lparr>visitedBitset = bs[addIndex (heap st s) := True],
           closestDistQueue = [D q (data (heap st s))],
           candidateSet = [(D q (data (heap st s)), s)],
           resultSet = insort_key fst (D q (data (heap st s)), s) rs\<rparr>"
  have "count_list bs False = 0 \<Longrightarrow> count_list (bs[addIndex (heap st s) := True]) False = 0"
    using count_list_False_update[of bs "addIndex (heap st s)"] by simp
  then have f: "full_inv nn (Suc (length rs)) ?t"
    using Suc.prems(3) by (auto simp: full_inv_def)
  from restart_attempt[OF ok s(3) f, of D q]
  obtain t' where t': "expand_candidates D (heap st) q nn (length (ElList st)) ?t = Some (Inr t')"
    "trav_inv (ElList st) t'" "full_inv nn (Suc (length rs)) t'"
    by blast
  have l: "length (visitedBitset t') = length (ElList st)"
    "snd ` set (resultSet t') \<subseteq> set (ElList st)"
    using t'(2) by (simp_all add: trav_inv_def)
  have f': "nn \<le> length (resultSet t') \<or> count_list (visitedBitset t') False = 0"
    using t'(3) by (auto simp: full_inv_def)
  from Suc.IH[OF l f', of "\<lambda>j. rnd (Suc j)"]
  obtain bs' rs' where r: "index_attempts n D st q nn (length (ElList st)) (\<lambda>j. rnd (Suc j))
        (visitedBitset t', resultSet t') = Some (Inr (bs', rs'))"
    "snd ` set rs' \<subseteq> set (ElList st)" "length rs' = length (resultSet t') + n"
    by blast
  have "length rs' = length rs + Suc n" using r(3) t'(3) by (simp add: full_inv_def)
  then show ?case using s(2) t'(1) r(1,2) by simp
qed

lemma kSearchElementsWithAttempts_count:
  assumes ok: "graph_ok (heap st) (ElList st)" and conn: "graph_connected (heap st) (ElList st)"
    and ne: "ElList st \<noteq> []" and nn: "0 < nn"
  shows "\<exists>rs. kSearchElementsWithAttempts D rnd st q nn (Suc n) [] = Some (Inr rs)
           \<and> snd ` set rs \<subseteq> set (ElList st)
           \<and> length rs = min nn (length (ElList st)) + n"
proof -
  let ?els = "ElList st"
  let ?N = "length ?els"
  from start_attempt_ok[OF ok ne, of "replicate ?N False" "[]" D q "rnd 0"]
  obtain s where s: "s \<in> set ?els"
    "start_attempt D st q ?N (rnd 0) (replicate ?N False, [])
       = Inr \<lparr>visitedBitset = (replicate ?N False)[addIndex (heap st s) := True],
                closestDistQueue = [D q (data (heap st s))],
                candidateSet = [(D q (data (heap st s)), s)],
                resultSet = [(D q (data (heap st s)), s)]\<rparr>"
    "trav_inv ?els \<lparr>visitedBitset = (replicate ?N False)[addIndex (heap st s) := True],
                closestDistQueue = [D q (data (heap st s))],
                candidateSet = [(D q (data (heap st s)), s)],
                resultSet = [(D q (data (heap st s)), s)]\<rparr>"
    by auto
  let ?t = "\<lparr>visitedBitset = (replicate ?N False)[addIndex (heap st s) := True],
                closestDistQueue = [D q (data (heap st s))],
                candidateSet = [(D q (data (heap st s)), s)],
                resultSet = [(D q (data (heap st s)), s)]\<rparr>"
  have f: "first_inv (heap st) ?els nn s ?t" using first_inv_start[OF ok s(1) s(3)] .
  have r: "result_inv (heap st) nn ?t" using result_inv_start[OF ok s(1) nn] .
  from single_attempt[OF ok conn s(1) f r, of D q]
  obtain t' where t': "expand_candidates D (heap st) q nn ?N ?t = Some (Inr t')"
    "trav_inv ?els t'" "length (resultSet t') = min nn ?N"
    "nn \<le> length (resultSet t') \<or> count_list (visitedBitset t') False = 0"
    by blast
  have l: "length (visitedBitset t') = ?N" "snd ` set (resultSet t') \<subseteq> set ?els"
    using t'(2) by (simp_all add: trav_inv_def)
  from index_attempts_restarts[OF ok ne l t'(4), of n D q "\<lambda>j. rnd (Suc j)"]
  obtain bs' rs' where r: "index_attempts n D st q nn ?N (\<lambda>j. rnd (Suc j))
        (visitedBitset t', resultSet t') = Some (Inr (bs', rs'))"
    "snd ` set rs' \<subseteq> set ?els" "length rs' = length (resultSet t') + n"
    by blast
  have "index_attempts (Suc n) D st q nn ?N rnd (replicate ?N False, []) = Some (Inr (bs', rs'))"
    using s(2) t'(1) r(1) by simp
  then have "kSearchElementsWithAttempts D rnd st q nn (Suc n) [] = Some (Inr rs')"
    by (simp add: kSearchElementsWithAttempts_def)
  then show ?thesis using r(2,3) t'(3) by simp
qed

lemma add_degree_attempts:
  assumes ok: "graph_ok (heap st) (ElList st)"
    and conn: "graph_connected (heap st) (ElList st)"
    and ne: "ElList st \<noteq> []"
    and fresh: "newElement \<notin> set (ElList st)"
    and nn: "0 < NN st"
    and att: "0 < initIndexAttempts st"
  shows "\<exists>st'.
      add IndexTimeDistance rnd newElement st = Some (Inr st')
    \<and> length (friends (heap st' newElement))
        = min (NN st) (length (ElList st)) + (initIndexAttempts st - 1)"
proof -
  let ?st = "removeAllFriends newElement st"
  obtain n where n: "initIndexAttempts st = Suc n" using att by (cases "initIndexAttempts st") auto
  have sel: "ElList ?st = ElList st" "data (heap ?st newElement) = data (heap st newElement)"
    "NN ?st = NN st" "initIndexAttempts ?st = Suc n"
    "friends (heap ?st newElement) = []"
    using n by (simp_all add: removeAllFriends_def)
  have ok': "graph_ok (heap ?st) (ElList ?st)" and conn': "graph_connected (heap ?st) (ElList ?st)"
    using removeAllFriends_graph[OF fresh] ok conn by simp_all
  have ne': "ElList ?st \<noteq> []" using ne sel by simp
  from kSearchElementsWithAttempts_count[OF ok' conn' ne' nn,
      of IndexTimeDistance rnd "data (heap st newElement)" n]
  obtain rs where rs: "kSearchElementsWithAttempts IndexTimeDistance rnd ?st
          (data (heap st newElement)) (NN st) (Suc n) [] = Some (Inr rs)"
    "snd ` set rs \<subseteq> set (ElList st)"
    "length rs = min (NN st) (length (ElList st)) + n"
    using sel by auto
  let ?st' = "addCriticalSection newElement (link_results rs newElement ?st)"
  have a: "add IndexTimeDistance rnd newElement st = Some (Inr ?st')"
    using rs(1) ne by (simp add: add_def Let_def sel)
  have "newElement \<notin> snd ` set rs" using rs(2) fresh by auto
  then have "friends (heap (link_results rs newElement ?st) newElement) = rev (map snd rs)"
    by (simp add: link_results_friends sel)
  then have f: "friends (heap ?st' newElement) = rev (map snd rs)"
    by (simp add: addCriticalSection_def)
  have "length (friends (heap ?st' newElement))
        = min (NN st) (length (ElList st)) + (initIndexAttempts st - 1)"
    using f rs(3) n by simp
  then show ?thesis using a by blast
qed

text \<open>\<open>two_index\<close> is the state in which the sequential constructor inserts the third
  object of the data set 1, 2, 0.\<close>

lemma two_index_built:
  "SmallWorldRand_ctor abs_dist rnd 0 free_store
     \<lparr>param_NN = Some 1, param_initIndexAttempts = None, param_initSearchAttempts = None,
      param_indexThreadQty = None\<rparr> [1, 2]
     = Some (Constructed (two_index\<lparr>heap_next := 2\<rparr>))
   \<and> new_MSWNode 0 (two_index\<lparr>heap_next := 2\<rparr>) = (2, two_index)"
proof -
  define st1 :: "int SmallWorldRand" where "st1 =
              \<lparr>NN = Suc 0, initIndexAttempts = 2, initSearchAttempts = 10, indexThreadQty = 0,
               ElList = [0],
               heap = free_store(0 := \<lparr>data = 1, addIndex = 0, friends = []\<rparr>,
                                 Suc 0 := \<lparr>data = 2, addIndex = SIZE_MAX, friends = []\<rparr>),
               heap_next = 2\<rparr>"
  define r where "r = removeAllFriends (Suc 0) st1"
  have a: "ElList r = [0]" "friends (heap r 0) = []" "addIndex (heap r 0) = 0"
    "data (heap r (Suc 0)) = 2" "data (heap r 0) = 1" "NN r = Suc 0"
    "initIndexAttempts r = Suc (Suc 0)"
    by (simp_all add: r_def st1_def removeAllFriends_def)
  have "index_attempts (Suc (Suc 0)) abs_dist r 2 (Suc 0) (Suc 0) rnd ([False], [])
           = Some (Inr ([True], [(1, 0), (1, 0)]))"
    by (simp add: index_attempts_single_leaf[OF a(1,2,3)] a abs_dist_def
          del: index_attempts.simps)
  then have k: "kSearchElementsWithAttempts abs_dist rnd r 2 (Suc 0) (Suc (Suc 0)) []
        = Some (Inr [(1, 0), (1, 0)])"
    by (simp add: kSearchElementsWithAttempts_def a Let_def del: index_attempts.simps)
  have l: "link_results [(1::int, 0), (1, 0)] (Suc 0) r = link 0 (Suc 0) (link 0 (Suc 0) r)"
    by (simp add: link_results.simps[of "[(1, 0), (1, 0)]"] link_results.simps[of "[(1, 0)]"]
        link_results.simps[of "[]"])
  have ad: "add abs_dist rnd (Suc 0) st1
     = Some (Inr (addCriticalSection (Suc 0) (link 0 (Suc 0) (link 0 (Suc 0) r))))"
    using k l a unfolding add_def Let_def r_def[symmetric] by simp
  have h: "heap (addCriticalSection (Suc 0) (link 0 (Suc 0) (link 0 (Suc 0) r))) = two_heap"
    by (rule ext)
      (simp add: r_def st1_def addCriticalSection_def link_def addFriend_def
        removeAllFriends_def two_heap_def free_store_def)
  have fin: "addCriticalSection (Suc 0) (link 0 (Suc 0) (link 0 (Suc 0) r))
      = two_index\<lparr>heap_next := 2\<rparr>"
    using h by (simp add: r_def st1_def addCriticalSection_def link_def addFriend_def
        removeAllFriends_def two_index_def)
  have s: "addCriticalSection 0 (snd (new_MSWNode (1::int)
            \<lparr>NN = Suc 0, initIndexAttempts = 2, initSearchAttempts = 10, indexThreadQty = 0,
             ElList = [], heap = free_store, heap_next = 0\<rparr>))
        = \<lparr>NN = Suc 0, initIndexAttempts = 2, initSearchAttempts = 10, indexThreadQty = 0,
             ElList = [0],
             heap = free_store(0 := \<lparr>data = 1, addIndex = 0, friends = []\<rparr>),
             heap_next = Suc 0\<rparr>"
    by (simp add: new_MSWNode_def addCriticalSection_def)
  have n1: "new_MSWNode (2::int) \<lparr>NN = Suc 0, initIndexAttempts = 2, initSearchAttempts = 10,
             indexThreadQty = 0, ElList = [0],
             heap = free_store(0 := \<lparr>data = 1, addIndex = 0, friends = []\<rparr>),
             heap_next = Suc 0\<rparr> = (Suc 0, st1)"
    by (simp add: new_MSWNode_def st1_def)
  have c: "SmallWorldRand_ctor abs_dist rnd 0 free_store
     \<lparr>param_NN = Some 1, param_initIndexAttempts = None, param_initSearchAttempts = None,
      param_indexThreadQty = None\<rparr> [1, 2]
     = Some (Constructed (two_index\<lparr>heap_next := 2\<rparr>))"
    unfolding SmallWorldRand_ctor_def GetParamOptional_def Let_def
    using s n1 ad fin
    by (simp add: new_MSWNode_def[of 1])
  have "two_heap(2 := \<lparr>data = 0, addIndex = SIZE_MAX, friends = []\<rparr>) = two_heap"
    by (rule ext) (simp add: two_heap_def)
  then have n: "new_MSWNode 0 (two_index\<lparr>heap_next := 2\<rparr>) = (2, two_index)"
    by (simp add: new_MSWNode_def two_index_def)
  show ?thesis using c n by simp
qed

section \<open>The sequential build\<close>

text \<open>Every insertion of the sequential build returns and keeps the graph well formed and
  connected; so the constructor with at most one thread and at least one attempt returns an
  index that holds one node per object.\<close>

lemma link_other_fields [simp]:
  "NN (link a b st) = NN st" "initIndexAttempts (link a b st) = initIndexAttempts st"
  "heap_next (link a b st) = heap_next st"
  "addIndex (heap (link a b st) p) = addIndex (heap st p)"
  "data (heap (link a b st) p) = data (heap st p)"
  by (simp_all add: link_def addFriend_def)

lemma link_friends_set:
  "set (friends (heap (link r x st) p))
     \<subseteq> set (friends (heap st p)) \<union> (if p = x then {r} else {}) \<union> (if p = r then {x} else {})"
  by (auto simp: link_def addFriend_def)

lemma link_results_fields:
  "ElList (link_results rs x st) = ElList st \<and> NN (link_results rs x st) = NN st
   \<and> initIndexAttempts (link_results rs x st) = initIndexAttempts st
   \<and> heap_next (link_results rs x st) = heap_next st
   \<and> addIndex (heap (link_results rs x st) p) = addIndex (heap st p)
   \<and> data (heap (link_results rs x st) p) = data (heap st p)"
proof (induction rs x st rule: link_results.induct)
  case (1 rs x st)
  show ?case
  proof (cases "rs = []")
    case True
    then show ?thesis by (subst (1 2 3 4 5 6) link_results.simps) simp
  next
    case False
    then show ?thesis using "1.IH"[OF False]
      by (subst (1 2 3 4 5 6) link_results.simps) simp
  qed
qed

lemma link_results_friends_mono:
  "set (friends (heap st p)) \<subseteq> set (friends (heap (link_results rs x st) p))"
proof (induction rs x st rule: link_results.induct)
  case (1 rs x st)
  show ?case
  proof (cases "rs = []")
    case True
    then show ?thesis by (subst link_results.simps) simp
  next
    case False
    have "set (friends (heap st p)) \<subseteq> set (friends (heap (link (snd (last rs)) x st) p))"
      by (auto intro: link_friends_mono)
    then show ?thesis using "1.IH"[OF False] False
      by (subst link_results.simps) auto
  qed
qed

lemma link_results_friends_set:
  "set (friends (heap (link_results rs x st) p))
     \<subseteq> set (friends (heap st p)) \<union> (if p = x then snd ` set rs else {})
         \<union> (if p \<in> snd ` set rs then {x} else {})"
proof (induction rs x st rule: link_results.induct)
  case (1 rs x st)
  show ?case
  proof (cases "rs = []")
    case True
    then show ?thesis by (subst link_results.simps) simp
  next
    case False
    have l: "last rs \<in> set rs" using False by simp
    have b: "set (butlast rs) \<subseteq> set rs" by (auto dest: in_set_butlastD)
    have "set (friends (heap (link_results (butlast rs) x (link (snd (last rs)) x st)) p))
       \<subseteq> set (friends (heap (link (snd (last rs)) x st) p))
          \<union> (if p = x then snd ` set (butlast rs) else {})
          \<union> (if p \<in> snd ` set (butlast rs) then {x} else {})"
      using "1.IH"[OF False] .
    also have "\<dots> \<subseteq> set (friends (heap st p)) \<union> (if p = x then snd ` set rs else {})
         \<union> (if p \<in> snd ` set rs then {x} else {})"
      using link_friends_set[of "snd (last rs)" x st p] l b
      by (auto split: if_splits)
    finally show ?thesis using False
      by (subst link_results.simps) simp
  qed
qed

lemma link_results_links_made: "links_made x rs (link_results rs x st)"
proof -
  from add_step_invariant3[OF link_results_steps[of x rs st]]
  show ?thesis by auto
qed

lemma add_preserves_build_inv:
  assumes inv: "build_inv st" and fresh: "x \<notin> set (ElList st)" and al: "x < heap_next st"
    and att: "0 < initIndexAttempts st"
  shows "\<exists>st'. add D rnd x st = Some (Inr st') \<and> build_inv st'
           \<and> ElList st' = ElList st @ [x] \<and> NN st' = NN st
           \<and> initIndexAttempts st' = initIndexAttempts st \<and> heap_next st' = heap_next st"
proof -
  let ?els = "ElList st"
  let ?N = "length ?els"
  let ?st = "removeAllFriends x st"
  from inv have ok: "graph_ok (heap st) ?els" and conn: "graph_connected (heap st) ?els"
    and ne: "?els \<noteq> []" and alloc: "list_all (\<lambda>p. p < heap_next st) ?els"
    by (simp_all add: build_inv_def)
  have sel: "ElList ?st = ?els" "data (heap ?st x) = data (heap st x)"
    "NN ?st = NN st" "initIndexAttempts ?st = initIndexAttempts st"
    "friends (heap ?st x) = []" "heap_next ?st = heap_next st"
    by (simp_all add: removeAllFriends_def)
  have idx0: "addIndex (heap ?st p) = addIndex (heap st p)" for p
    by (simp add: removeAllFriends_def)
  have fr0: "friends (heap ?st p) = friends (heap st p)" if "p \<noteq> x" for p
    using that by (simp add: removeAllFriends_def)
  have ok': "graph_ok (heap ?st) (ElList ?st)" and conn': "graph_connected (heap ?st) (ElList ?st)"
    using removeAllFriends_graph[OF fresh] ok conn by simp_all
  have ne': "ElList ?st \<noteq> []" using ne sel by simp
  from kSearchElementsWithAttempts_total[OF ok' conn' ne' att, of D rnd "data (heap st x)" "NN st"]
  obtain rs where rs: "kSearchElementsWithAttempts D rnd ?st
          (data (heap st x)) (NN st) (initIndexAttempts st) [] = Some (Inr rs)"
    "snd ` set rs \<subseteq> set ?els" "rs \<noteq> []"
    using sel by auto
  let ?L = "link_results rs x ?st"
  let ?st' = "addCriticalSection x ?L"
  have a: "add D rnd x st = Some (Inr ?st')"
    using rs(1) ne by (simp add: add_def Let_def sel)
  note Lf = link_results_fields[of rs x ?st]
  have el': "ElList ?st' = ?els @ [x]" using Lf by (simp add: sel)
  have par: "NN ?st' = NN st" "initIndexAttempts ?st' = initIndexAttempts st"
    "heap_next ?st' = heap_next st"
    using Lf by (simp_all add: addCriticalSection_def sel)
  have idx_old: "addIndex (heap ?st' p) = addIndex (heap st p)" if "p \<in> set ?els" for p
  proof -
    have "p \<noteq> x" using that fresh by auto
    then show ?thesis using link_results_fields[of rs x ?st p]
      by (simp add: addCriticalSection_def idx0)
  qed
  have idx_new: "addIndex (heap ?st' x) = ?N"
    using Lf by (simp add: addCriticalSection_def sel)
  have fr_eq: "friends (heap ?st' p) = friends (heap ?L p)" for p by simp
  have fr_x: "set (friends (heap ?st' x)) \<subseteq> set ?els"
    using link_results_friends_set[of rs x ?st x] rs(2) fresh
    by (auto simp: sel split: if_splits)
  have fr_old_sub: "set (friends (heap ?st' p)) \<subseteq> set (friends (heap st p)) \<union> {x}"
    if "p \<in> set ?els" for p
  proof -
    have "p \<noteq> x" using that fresh by auto
    then show ?thesis using link_results_friends_set[of rs x ?st p]
      by (auto simp: fr0 split: if_splits)
  qed
  have fr_old_mono: "set (friends (heap st p)) \<subseteq> set (friends (heap ?st' p))"
    if "p \<in> set ?els" for p
  proof -
    have "p \<noteq> x" using that fresh by auto
    then show ?thesis using link_results_friends_mono[of ?st p rs x] by (simp add: fr0)
  qed
  obtain e where e: "e \<in> set rs" using rs(3) by (cases rs) auto
  let ?r = "snd e"
  have r: "?r \<in> set ?els" using e rs(2) by auto
  have lm: "x \<in> set (friends (heap ?st' ?r))" "?r \<in> set (friends (heap ?st' x))"
    using link_results_links_made[of x rs ?st] e by (auto simp: links_made_def list_all_iff)
  \<comment> \<open>the indices stay dense\<close>
  have m1: "map (\<lambda>p. addIndex (heap ?st' p)) (?els @ [x]) = [0..<length (?els @ [x])]"
  proof -
    have "map (\<lambda>p. addIndex (heap ?st' p)) ?els = map (\<lambda>p. addIndex (heap st p)) ?els"
      using idx_old by simp
    also have "\<dots> = [0..<?N]" using ok by (simp add: graph_ok_def)
    finally show ?thesis using idx_new by simp
  qed
  \<comment> \<open>friends are published\<close>
  have m2: "list_all (\<lambda>p. list_all (\<lambda>f. f \<in> set (?els @ [x])) (friends (heap ?st' p))) (?els @ [x])"
  proof -
    have "set (friends (heap ?st' p)) \<subseteq> set (?els @ [x])" if "p \<in> set (?els @ [x])" for p
    proof (cases "p = x")
      case True
      then show ?thesis using fr_x by auto
    next
      case False
      then have p: "p \<in> set ?els" using that by simp
      have "set (friends (heap st p)) \<subseteq> set ?els" using ok p by (rule graph_ok_friends)
      then show ?thesis using fr_old_sub[OF p] by auto
    qed
    then show ?thesis unfolding list_all_iff by blast
  qed
  have ok'': "graph_ok (heap ?st') (ElList ?st')"
    unfolding el' graph_ok_def using m1 m2 by simp
  \<comment> \<open>the graph stays connected\<close>
  let ?R = "{(a, b). a \<in> set ?els \<and> b \<in> set (friends (heap st a))}"
  let ?R' = "{(a, b). a \<in> set (?els @ [x]) \<and> b \<in> set (friends (heap ?st' a))}"
  have sub: "?R \<subseteq> ?R'" using fr_old_mono by auto
  have old: "(p, q) \<in> ?R'\<^sup>*" if "p \<in> set ?els" "q \<in> set ?els" for p q
  proof -
    have "(p, q) \<in> ?R\<^sup>*" using conn that by (simp add: graph_connected_def)
    then show ?thesis using rtrancl_mono[OF sub] by blast
  qed
  have xr: "(x, ?r) \<in> ?R'" and rx: "(?r, x) \<in> ?R'" using lm r by simp_all
  have conn'': "graph_connected (heap ?st') (ElList ?st')"
    unfolding el' graph_connected_def
  proof (intro ballI)
    fix p q assume p: "p \<in> set (?els @ [x])" and q: "q \<in> set (?els @ [x])"
    have from_r: "(?r, q) \<in> ?R'\<^sup>*"
    proof (cases "q = x")
      case True
      then show ?thesis using rx by blast
    next
      case False
      then show ?thesis using old[OF r] q by simp
    qed
    show "(p, q) \<in> ?R'\<^sup>*"
    proof (cases "p = x")
      case True
      then show ?thesis using xr from_r by (blast intro: converse_rtrancl_into_rtrancl)
    next
      case False
      then have "(p, ?r) \<in> ?R'\<^sup>*" using old[OF _ r] p by simp
      then show ?thesis using from_r by (rule rtrancl_trans)
    qed
  qed
  have alloc': "list_all (\<lambda>p. p < heap_next ?st') (ElList ?st')"
    unfolding el' par(3) using alloc al by simp
  have "build_inv ?st'"
    unfolding build_inv_def using ok'' conn'' alloc' el' by simp
  then show ?thesis using a el' par by blast
qed

lemma graph_cong:
  assumes "\<forall>p\<in>set els. h' p = h p"
  shows "graph_ok h' els = graph_ok h els" and "graph_connected h' els = graph_connected h els"
proof -
  have m: "map (\<lambda>p. addIndex (h' p)) els = map (\<lambda>p. addIndex (h p)) els"
    using assms by simp
  have l: "list_all (\<lambda>p. list_all (\<lambda>f. f \<in> set els) (friends (h' p))) els
    = list_all (\<lambda>p. list_all (\<lambda>f. f \<in> set els) (friends (h p))) els"
    using assms by (simp add: list_all_iff)
  show "graph_ok h' els = graph_ok h els"
    by (simp only: graph_ok_def m l)
  have r: "{(a, b). a \<in> set els \<and> b \<in> set (friends (h' a))}
      = {(a, b). a \<in> set els \<and> b \<in> set (friends (h a))}"
    using assms by auto
  show "graph_connected h' els = graph_connected h els"
    by (simp only: graph_connected_def r)
qed

lemma new_MSWNode_build_inv:
  assumes inv: "build_inv st"
  shows "build_inv (snd (new_MSWNode obj st))
       \<and> fst (new_MSWNode obj st) \<notin> set (ElList (snd (new_MSWNode obj st)))
       \<and> fst (new_MSWNode obj st) < heap_next (snd (new_MSWNode obj st))
       \<and> ElList (snd (new_MSWNode obj st)) = ElList st
       \<and> NN (snd (new_MSWNode obj st)) = NN st
       \<and> initIndexAttempts (snd (new_MSWNode obj st)) = initIndexAttempts st"
proof -
  let ?p = "heap_next st"
  let ?st1 = "snd (new_MSWNode obj st)"
  from inv have ok: "graph_ok (heap st) (ElList st)"
    and conn: "graph_connected (heap st) (ElList st)"
    and ne: "ElList st \<noteq> []" and alloc: "\<forall>p\<in>set (ElList st). p < heap_next st"
    by (simp_all add: build_inv_def list_all_iff)
  have f: "fst (new_MSWNode obj st) = ?p" "ElList ?st1 = ElList st"
    "heap_next ?st1 = Suc ?p" "NN ?st1 = NN st" "initIndexAttempts ?st1 = initIndexAttempts st"
    by (simp_all add: new_MSWNode_def)
  have fresh: "?p \<notin> set (ElList st)" using alloc by auto
  then have "\<forall>p\<in>set (ElList st). heap ?st1 p = heap st p"
    by (auto simp: new_MSWNode_def)
  from graph_cong[OF this] ok conn
  have "graph_ok (heap ?st1) (ElList st)" "graph_connected (heap ?st1) (ElList st)"
    by simp_all
  moreover have "list_all (\<lambda>p. p < Suc ?p) (ElList st)"
    using alloc by (auto simp: list_all_iff)
  ultimately have "build_inv ?st1" using ne by (simp add: build_inv_def f)
  then show ?thesis using f fresh by simp
qed

lemma add_objects_total:
  assumes "build_inv st" and "0 < initIndexAttempts st"
  shows "\<exists>st'. add_objects D rnd objs st = Some (Inr st') \<and> build_inv st'
           \<and> length (ElList st') = length (ElList st) + length objs
           \<and> NN st' = NN st \<and> initIndexAttempts st' = initIndexAttempts st"
  using assms
proof (induction objs arbitrary: st rnd)
  case Nil
  then show ?case by simp
next
  case (Cons obj objs)
  obtain node st1 where n: "new_MSWNode obj st = (node, st1)" by (cases "new_MSWNode obj st")
  have s1: "build_inv st1" "node \<notin> set (ElList st1)" "node < heap_next st1"
    "ElList st1 = ElList st" "NN st1 = NN st" "initIndexAttempts st1 = initIndexAttempts st"
    using new_MSWNode_build_inv[OF Cons.prems(1), of obj, unfolded n fst_conv snd_conv]
    by blast+
  have att1: "0 < initIndexAttempts st1" using s1(6) Cons.prems(2) by simp
  from add_preserves_build_inv[OF s1(1,2,3) att1, of D rnd]
  obtain st2 where s2: "add D rnd node st1 = Some (Inr st2)" "build_inv st2"
    "ElList st2 = ElList st1 @ [node]" "NN st2 = NN st1"
    "initIndexAttempts st2 = initIndexAttempts st1"
    by blast
  have att2: "0 < initIndexAttempts st2" using s2(5) att1 by simp
  from Cons.IH[OF s2(2) att2, of "\<lambda>j. rnd (initIndexAttempts st + j)"]
  obtain st' where s': "add_objects D (\<lambda>j. rnd (initIndexAttempts st + j)) objs st2 = Some (Inr st')"
    "build_inv st'" "length (ElList st') = length (ElList st2) + length objs"
    "NN st' = NN st2" "initIndexAttempts st' = initIndexAttempts st2"
    by blast
  show ?case using n s1 s2 s' by simp
qed

lemma ctor_sequential_total:
  assumes "0 < GetParamOptional (param_initIndexAttempts MethParams) 2"
    and "GetParamOptional (param_indexThreadQty MethParams) max_threads \<le> 1"
    and "dat \<noteq> []"
  shows "\<exists>st. SmallWorldRand_ctor D rnd max_threads h0 MethParams dat = Some (Constructed st)
           \<and> build_inv st \<and> length (ElList st) = length dat"
proof -
  obtain obj objs where d: "dat = obj # objs" using assms(3) by (cases dat) auto
  let ?st = "\<lparr>NN = GetParamOptional (param_NN MethParams) 5,
                initIndexAttempts = GetParamOptional (param_initIndexAttempts MethParams) 2,
                initSearchAttempts = GetParamOptional (param_initSearchAttempts MethParams) 10,
                indexThreadQty = GetParamOptional (param_indexThreadQty MethParams) max_threads,
                ElList = [], heap = h0, heap_next = 0\<rparr>"
  define st2 where "st2 = addCriticalSection (fst (new_MSWNode obj ?st)) (snd (new_MSWNode obj ?st))"
  have f: "ElList st2 = [0]" "heap_next st2 = Suc 0" "addIndex (heap st2 0) = 0"
    "friends (heap st2 0) = []"
    "initIndexAttempts st2 = GetParamOptional (param_initIndexAttempts MethParams) 2"
    "indexThreadQty st2 = GetParamOptional (param_indexThreadQty MethParams) max_threads"
    by (simp_all add: st2_def new_MSWNode_def addCriticalSection_def)
  have "build_inv st2"
    by (simp add: build_inv_def graph_ok_def graph_connected_def f)
  moreover have "0 < initIndexAttempts st2" using assms(1) f(5) by simp
  ultimately obtain st' where s': "add_objects D rnd objs st2 = Some (Inr st')" "build_inv st'"
    "length (ElList st') = length (ElList st2) + length objs"
    using add_objects_total[of st2 D rnd objs] by blast
  have "SmallWorldRand_ctor D rnd max_threads h0 MethParams dat = Some (Constructed st')"
    using s'(1) assms(2) f(6) unfolding st2_def
    by (simp add: SmallWorldRand_ctor_def d Let_def case_prod_unfold)
  then show ?thesis using s'(2,3) f(1) d by simp
qed

section \<open>How the state of the endless traversal arises\<close>

text \<open>The traversal of the first thread, for node 1, returns node 0, to which node 1 is
  linked; the traversal of the second thread, for node 2, then returns node 1, to which
  node 2 is linked. This gives \<open>loop_index\<close>, on which the traversal of the third thread
  does not terminate.\<close>

lemma loop_thread1:
  "kSearchElementsWithAttempts abs_dist rnd (removeAllFriends (Suc 0) loop_start) 0 (Suc 0) (Suc 0) []
     = Some (Inr [(10, 0)])"
proof -
  let ?st = "removeAllFriends (Suc 0) loop_start"
  have a: "ElList ?st = [0]" "friends (heap ?st 0) = []" "addIndex (heap ?st 0) = 0"
    "data (heap ?st 0) = 10"
    by (simp_all add: removeAllFriends_def loop_start_def)
  show ?thesis
    by (simp add: kSearchElementsWithAttempts_def index_attempts_single_leaf[OF a(1,2,3)] a
        abs_dist_def del: index_attempts.simps)
qed

lemma loop_thread1_links:
  "link_results [(10::int, 0)] (Suc 0) (removeAllFriends (Suc 0) loop_start)
     = link 0 (Suc 0) (removeAllFriends (Suc 0) loop_start)"
  by (simp add: link_results.simps[of "[(10, 0)]"] link_results.simps[of "[]"])

lemma loop_mid_heap:
  "heap (removeAllFriends 2 loop_mid) 0 = \<lparr>data = 10, addIndex = 0, friends = [1]\<rparr>"
  "heap (removeAllFriends 2 loop_mid) (Suc 0) = \<lparr>data = 0, addIndex = SIZE_MAX, friends = [0]\<rparr>"
  "heap (removeAllFriends 2 loop_mid) 2 = \<lparr>data = 0, addIndex = SIZE_MAX, friends = []\<rparr>"
  "ElList (removeAllFriends 2 loop_mid) = [0]"
  by (simp_all add: loop_mid_def removeAllFriends_def link_def addFriend_def loop_start_def)

lemma loop_thread2_expand:
  "expand_candidates abs_dist (heap (removeAllFriends 2 loop_mid)) 0 (Suc 0) (Suc 0)
     \<lparr>visitedBitset = [True], closestDistQueue = [10], candidateSet = [(10, 0)],
      resultSet = [(10, 0)]\<rparr>
   = Some (Inr \<lparr>visitedBitset = [True], closestDistQueue = [0], candidateSet = [],
                resultSet = [(0, 1)]\<rparr>)"
  apply (subst expand_candidates.simps)
  apply (simp add: loop_mid_heap visit_neighbor_def abs_dist_def SIZE_MAX_ge1 Let_def)
  apply (subst expand_candidates.simps)
  apply (simp add: loop_mid_heap visit_neighbor_def abs_dist_def SIZE_MAX_ge1 Let_def)
  apply (subst expand_candidates.simps)
  apply simp
  done

lemma loop_thread2:
  "kSearchElementsWithAttempts abs_dist rnd (removeAllFriends 2 loop_mid) 0 (Suc 0) (Suc 0) []
     = Some (Inr [(0, 1)])"
  by (simp add: kSearchElementsWithAttempts_def start_attempt_def getRandomEntryPoint_def
      loop_mid_heap abs_dist_def[of 0 10] loop_thread2_expand)

lemma loop_thread2_links:
  "link_results [(0::int, Suc 0)] 2 (removeAllFriends 2 loop_mid) = loop_index"
proof -
  have "link_results [(0::int, Suc 0)] 2 (removeAllFriends 2 loop_mid)
      = link (Suc 0) 2 (removeAllFriends 2 loop_mid)"
    by (simp add: link_results.simps[of "[(0, Suc 0)]"] link_results.simps[of "[]"])
  moreover have "heap (link (Suc 0) 2 (removeAllFriends 2 loop_mid)) = loop_heap"
    by (rule ext)
      (simp add: loop_mid_def removeAllFriends_def link_def addFriend_def loop_start_def
        loop_heap_def)
  ultimately show ?thesis
    by (simp add: loop_index_def loop_mid_def removeAllFriends_def link_def addFriend_def
        loop_start_def)
qed

end
